theory Spec2Isabelle
  imports Main
begin

section \<open>JavaScript strings\<close>

text \<open>
  A JavaScript string is a sequence of UTF-16 code units. A code unit is modelled as an
  integer (every code unit lies between 0 and 65535; nothing below needs the bounds), so
  that the theorems speak about every string the service can receive and not only about
  ASCII text. \<open>js\<close> turns a literal of the source into its code units.
\<close>

type_synonym jsstring = "int list"

definition js :: "string \<Rightarrow> jsstring" where
  "js s = map of_char s"

text \<open>
  The set matched by \<open>\s\<close> and removed by \<open>String.prototype.trim\<close>: ECMAScript's
  WhiteSpace (TAB, VT, FF, SP, NBSP, ZWNBSP and the space separators) and
  LineTerminator (LF, CR, LS, PS).
\<close>

definition isWhiteSpace :: "int \<Rightarrow> bool" where
  "isWhiteSpace c \<longleftrightarrow>
     (9 \<le> c \<and> c \<le> 13) \<or> c = 32 \<or> c = 160 \<or> c = 5760 \<or> (8192 \<le> c \<and> c \<le> 8202) \<or>
     c = 8232 \<or> c = 8233 \<or> c = 8239 \<or> c = 8287 \<or> c = 12288 \<or> c = 65279"

text \<open>\<open>\w\<close> without the \<open>u\<close> flag: \<open>[A-Za-z0-9_]\<close>.\<close>

definition isWordChar :: "int \<Rightarrow> bool" where
  "isWordChar c \<longleftrightarrow> (48 \<le> c \<and> c \<le> 57) \<or> (65 \<le> c \<and> c \<le> 90) \<or> c = 95 \<or> (97 \<le> c \<and> c \<le> 122)"

text \<open>\<open>\d\<close>: \<open>[0-9]\<close>.\<close>

definition isDigit :: "int \<Rightarrow> bool" where
  "isDigit c \<longleftrightarrow> 48 \<le> c \<and> c \<le> 57"

text \<open>The dot (without the \<open>s\<close> flag) matches everything but a line terminator.\<close>

definition isLineTerminator :: "int \<Rightarrow> bool" where
  "isLineTerminator c \<longleftrightarrow> c = 10 \<or> c = 13 \<or> c = 8232 \<or> c = 8233"

definition notLineTerminator :: "int \<Rightarrow> bool" where
  "notLineTerminator c \<longleftrightarrow> \<not> isLineTerminator c"

text \<open>The class \<open>["'`]\<close> of cleanSQL.\<close>

definition isQuote :: "int \<Rightarrow> bool" where
  "isQuote c \<longleftrightarrow> c = 34 \<or> c = 39 \<or> c = 96"

definition upperASCII :: "int \<Rightarrow> int" where
  "upperASCII c = (if 97 \<le> c \<and> c \<le> 122 then c - 32 else c)"

text \<open>
  Canonicalize of the regular expression semantics. With the flag \<open>i\<close> (and no \<open>u\<close>)
  a code unit is compared through its upper case, and a code unit from 128 on is never
  mapped below 128. Every letter in the patterns of this program is ASCII, so a pattern
  character and an input character agree exactly when their ASCII upper cases agree.
\<close>

definition canon :: "bool \<Rightarrow> int \<Rightarrow> int" where
  "canon ignoreCase c = (if ignoreCase then upperASCII c else c)"

definition trim :: "jsstring \<Rightarrow> jsstring" where
  "trim s = rev (dropWhile isWhiteSpace (rev (dropWhile isWhiteSpace s)))"

definition startsWith :: "jsstring \<Rightarrow> jsstring \<Rightarrow> bool" where
  "startsWith s p \<longleftrightarrow> take (length p) s = p"

definition endsWith :: "jsstring \<Rightarrow> jsstring \<Rightarrow> bool" where
  "endsWith s p \<longleftrightarrow> length p \<le> length s \<and> drop (length s - length p) s = p"

text \<open>\<open>s.split(c)\<close> for a separator of one code unit: the segments between the separators.\<close>

fun split :: "int \<Rightarrow> jsstring \<Rightarrow> jsstring list" where
  "split c [] = [[]]"
| "split c (x # xs) =
     (if x = c then [] # split c xs
      else (case split c xs of [] \<Rightarrow> [[x]] | seg # segs \<Rightarrow> (x # seg) # segs))"

section \<open>Regular expressions\<close>

text \<open>
  The fragment of ECMAScript regular expressions that the source uses. Repetition is
  applied to character classes only (\<open>\s*\<close>, \<open>\s+\<close>, \<open>\d+\<close>, \<open>.*\<close>, \<open>["'`]+\<close>).
\<close>

datatype rx =
    Lit jsstring
  | Cls "int \<Rightarrow> bool"
  | Star "int \<Rightarrow> bool"
  | Plus "int \<Rightarrow> bool"
  | Opt rx
  | Seq rx rx
  | Alt rx rx
  | Bol
  | Eol
  | WordB

text \<open>
  The backtracking matcher: \<open>ms ic r s i\<close> lists the end positions of the matches of
  \<open>r\<close> in \<open>s\<close> that start at \<open>i\<close>, in the order in which backtracking tries them
  (greedy repetition: longest first; alternation: left first).
\<close>

fun ms :: "bool \<Rightarrow> rx \<Rightarrow> jsstring \<Rightarrow> nat \<Rightarrow> nat list" where
  "ms ic (Lit w) s i =
     (if i + length w \<le> length s \<and> map (canon ic) (take (length w) (drop i s)) = map (canon ic) w
      then [i + length w] else [])"
| "ms ic (Cls P) s i = (if i < length s \<and> P (s ! i) then [Suc i] else [])"
| "ms ic (Star P) s i = map (\<lambda>k. i + k) (rev [0 ..< Suc (length (takeWhile P (drop i s)))])"
| "ms ic (Plus P) s i = map (\<lambda>k. i + k) (rev [1 ..< Suc (length (takeWhile P (drop i s)))])"
| "ms ic (Opt r) s i = ms ic r s i @ [i]"
| "ms ic (Seq a b) s i = concat (map (ms ic b s) (ms ic a s i))"
| "ms ic (Alt a b) s i = ms ic a s i @ ms ic b s i"
| "ms ic Bol s i = (if i = 0 then [i] else [])"
| "ms ic Eol s i = (if i = length s then [i] else [])"
| "ms ic WordB s i =
     (if (0 < i \<and> i \<le> length s \<and> isWordChar (s ! (i - 1))) \<noteq> (i < length s \<and> isWordChar (s ! i))
      then [i] else [])"

fun seqs :: "rx list \<Rightarrow> rx" where
  "seqs [] = Lit []"
| "seqs [r] = r"
| "seqs (r # rs) = Seq r (seqs rs)"

fun alts :: "rx list \<Rightarrow> rx" where
  "alts [] = Cls (\<lambda>c. False)"
| "alts [r] = r"
| "alts (r # rs) = Alt r (alts rs)"

text \<open>
  \<open>exec\<close> from \<open>lastIndex\<close>: the leftmost start position with a match, and the end of
  the first match the backtracking finds there.
\<close>

definition exec :: "bool \<Rightarrow> rx \<Rightarrow> jsstring \<Rightarrow> nat \<Rightarrow> (nat \<times> nat) option" where
  "exec ic r s lastIndex =
     (case find (\<lambda>i. ms ic r s i \<noteq> []) [lastIndex ..< Suc (length s)] of
        None \<Rightarrow> None
      | Some i \<Rightarrow> Some (i, hd (ms ic r s i)))"

definition test :: "bool \<Rightarrow> rx \<Rightarrow> jsstring \<Rightarrow> bool" where
  "test ic r s \<longleftrightarrow> exec ic r s 0 \<noteq> None"

text \<open>
  \<open>s.replace(r, rep)\<close> for a pattern without the flag \<open>g\<close>: the first match is replaced.
  The replacement strings of the source hold no \<open>$\<close>, so they are inserted as they are.
\<close>

definition replace :: "bool \<Rightarrow> rx \<Rightarrow> jsstring \<Rightarrow> jsstring \<Rightarrow> jsstring" where
  "replace ic r rep s =
     (case exec ic r s 0 of
        None \<Rightarrow> s
      | Some (i, j) \<Rightarrow> take i s @ rep @ drop j s)"

lemma ms_bounds: "i \<le> length s \<Longrightarrow> j \<in> set (ms ic r s i) \<Longrightarrow> i \<le> j \<and> j \<le> length s"
proof (induction r arbitrary: i j)
  case (Lit w)
  then show ?case by (simp split: if_splits)
next
  case (Cls P)
  then show ?case by (simp split: if_splits)
next
  case (Star P)
  have "length (takeWhile P (drop i s)) \<le> length s - i"
    using length_takeWhile_le [of P "drop i s"] by simp
  with Star show ?case by (auto simp del: upt_Suc)
next
  case (Plus P)
  have "length (takeWhile P (drop i s)) \<le> length s - i"
    using length_takeWhile_le [of P "drop i s"] by simp
  with Plus show ?case by (auto simp del: upt_Suc)
next
  case (Opt r)
  from Opt.prems(2) have "j \<in> set (ms ic r s i) \<or> j = i" by auto
  with Opt.IH [OF Opt.prems(1)] Opt.prems(1) show ?case by blast
next
  case (Seq a b)
  from Seq.prems obtain m where m: "m \<in> set (ms ic a s i)" "j \<in> set (ms ic b s m)"
    by auto
  from Seq.IH(1) [OF Seq.prems(1) m(1)] have 1: "i \<le> m" "m \<le> length s" by simp_all
  from Seq.IH(2) [OF 1(2) m(2)] 1 show ?case by simp
next
  case (Alt a b)
  from Alt.prems(2) have "j \<in> set (ms ic a s i) \<or> j \<in> set (ms ic b s i)" by auto
  with Alt.IH(1) [OF Alt.prems(1)] Alt.IH(2) [OF Alt.prems(1)] show ?case by blast
next
  case Bol
  then show ?case by (simp split: if_splits)
next
  case Eol
  then show ?case by (simp split: if_splits)
next
  case WordB
  then show ?case by (simp split: if_splits)
qed

lemma find_upt_Some: "find P [k ..< n] = Some i \<Longrightarrow> k \<le> i \<and> i < n \<and> P i"
  by (auto simp: find_Some_iff)

lemma exec_bounds:
  assumes "exec ic r s k = Some (i, j)"
  shows "k \<le> i \<and> i \<le> j \<and> j \<le> length s"
proof (cases "find (\<lambda>i. ms ic r s i \<noteq> []) [k ..< Suc (length s)]")
  case None
  with assms show ?thesis unfolding exec_def by simp
next
  case (Some i')
  with assms have eq: "i' = i" "j = hd (ms ic r s i)" unfolding exec_def by auto
  from find_upt_Some [OF Some] eq have ki: "k \<le> i" "i \<le> length s" and ne: "ms ic r s i \<noteq> []"
    by simp_all
  from ne eq have "j \<in> set (ms ic r s i)" by simp
  from ms_bounds [OF ki(2) this] ki show ?thesis by simp
qed

text \<open>
  \<open>s.replace(r, rep)\<close> for a pattern with the flag \<open>g\<close>: every match is replaced, each
  search starting where the match before it ended (one code unit further after an empty
  match). \<open>replaceAllFrom\<close> gives the result from position \<open>k\<close> on.
\<close>

function replaceAllFrom :: "bool \<Rightarrow> rx \<Rightarrow> jsstring \<Rightarrow> jsstring \<Rightarrow> nat \<Rightarrow> jsstring" where
  "replaceAllFrom ic r rep s k =
     (case exec ic r s k of
        None \<Rightarrow> drop k s
      | Some (i, j) \<Rightarrow>
          take (i - k) (drop k s) @ rep @
          (if j = i then (if i < length s then s ! i # replaceAllFrom ic r rep s (Suc i) else [])
           else replaceAllFrom ic r rep s j))"
  by pat_completeness auto
termination
proof (relation "measure (\<lambda>(ic, r, rep, s, k). Suc (length s) - k)", goal_cases)
  case 1
  show ?case by simp
next
  case (2 ic r rep s k x2 i j)
  then have "k \<le> i \<and> i \<le> j \<and> j \<le> length s" using exec_bounds [of ic r s k i j] by simp
  with 2 show ?case by auto
next
  case (3 ic r rep s k x2 i j)
  then have "k \<le> i \<and> i \<le> j \<and> j \<le> length s" using exec_bounds [of ic r s k i j] by simp
  with 3 show ?case by auto
qed

definition replaceAll :: "bool \<Rightarrow> rx \<Rightarrow> jsstring \<Rightarrow> jsstring \<Rightarrow> jsstring" where
  "replaceAll ic r rep s = replaceAllFrom ic r rep s 0"

section \<open>The SQL service\<close>

datatype error =
    EmptySQLQuery
  | OnlySelectAllowed
  | DangerousOperations
  | MultipleStatements
  | OtherError jsstring

text \<open>The message of each \<open>Error\<close> the service constructs.\<close>

fun message :: "error \<Rightarrow> jsstring" where
  "message EmptySQLQuery = js ''Empty SQL query''"
| "message OnlySelectAllowed = js ''Only SELECT queries are allowed''"
| "message DangerousOperations = js ''Query contains potentially dangerous operations''"
| "message MultipleStatements = js ''Multiple SQL statements are not allowed''"
| "message (OtherError m) = m"

text \<open>DANGEROUS_PATTERNS, each with its flag \<open>i\<close>.\<close>

definition DANGEROUS_PATTERNS :: "(bool \<times> rx) list" where
  "DANGEROUS_PATTERNS =
    [(True, seqs [WordB,
                  alts [Lit (js ''INSERT''), Lit (js ''UPDATE''), Lit (js ''DELETE''), Lit (js ''DROP''),
                        Lit (js ''TRUNCATE''), Lit (js ''ALTER''), Lit (js ''CREATE''), Lit (js ''GRANT''),
                        Lit (js ''REVOKE'')],
                  WordB]),
     (True, seqs [WordB, alts [Lit (js ''EXEC''), Lit (js ''EXECUTE''), Lit (js ''EVAL'')], WordB]),
     (True, seqs [WordB, Lit (js ''INTO''), Plus isWhiteSpace, Lit (js ''OUTFILE''), WordB]),
     (True, seqs [WordB, Lit (js ''INTO''), Plus isWhiteSpace, Lit (js ''DUMPFILE''), WordB]),
     (True, seqs [WordB, Lit (js ''LOAD_FILE''), WordB]),
     (False, seqs [Lit (js '';''), Star isWhiteSpace, Lit (js ''--'')]),
     (True, seqs [Lit (js ''UNION''), Plus isWhiteSpace, Lit (js ''ALL''), Plus isWhiteSpace,
                  Lit (js ''SELECT''), Star notLineTerminator, Lit (js ''FROM''), Plus isWhiteSpace,
                  Lit (js ''INFORMATION_SCHEMA'')])]"

text \<open>
  validateSQL. \<open>toUpperCase\<close> is \<open>String.prototype.toUpperCase\<close>, whose table (the
  Unicode case mappings) is not part of the program: it is a parameter, and what is proved
  holds for every such function. A \<open>throw\<close> is the left summand.
\<close>

definition validateSQL :: "(jsstring \<Rightarrow> jsstring) \<Rightarrow> jsstring \<Rightarrow> error + bool" where
  "validateSQL toUpperCase sql =
     (if sql = [] \<or> length (trim sql) = 0 then Inl EmptySQLQuery
      else let trimmedSQL = toUpperCase (trim sql) in
        if \<not> startsWith trimmedSQL (js ''SELECT'') \<and> \<not> startsWith trimmedSQL (js ''WITH'')
        then Inl OnlySelectAllowed
        else if \<exists>(ic, pattern) \<in> set DANGEROUS_PATTERNS. test ic pattern sql
        then Inl DangerousOperations
        else let statements = filter (\<lambda>s. length (trim s) > 0) (split 59 sql) in
          if length statements > 1 then Inl MultipleStatements
          else Inr True)"

text \<open>cleanSQL.\<close>

definition cleanSQL :: "jsstring \<Rightarrow> jsstring" where
  "cleanSQL sql =
     (let cleaned = trim sql;
          cleaned = replace True (seqs [Bol, Lit (js ''```sql''), Star isWhiteSpace]) [] cleaned;
          cleaned = replace True (seqs [Bol, Lit (js ''```''), Star isWhiteSpace]) [] cleaned;
          cleaned = replace True (seqs [Star isWhiteSpace, Lit (js ''```''), Eol]) [] cleaned;
          cleaned = replaceAll False (Alt (Seq Bol (Plus isQuote)) (Seq (Plus isQuote) Eol)) [] cleaned
      in if \<not> endsWith cleaned (js '';'') then cleaned @ js '';'' else cleaned)"

text \<open>The ASCII part of \<open>toUpperCase\<close>: on a string of ASCII code units the two agree.\<close>

definition toUpperCaseASCII :: "jsstring \<Rightarrow> jsstring" where
  "toUpperCaseASCII s = map upperASCII s"

text \<open>
  \<open>s.indexOf(p)\<close>: the first position at which \<open>p\<close> occurs in \<open>s\<close>; \<open>None\<close> stands
  for the result \<open>-1\<close>.
\<close>

definition indexOf :: "jsstring \<Rightarrow> jsstring \<Rightarrow> nat option" where
  "indexOf s p = find (\<lambda>i. take (length p) (drop i s) = p) [0 ..< Suc (length s - length p)]"

text \<open>
  cleanSQLResponse of ai/openrouter.js, the sanitizer of the other AI client. It is
  cleanSQL with one more stage: the text in front of the first \<open>SELECT\<close> or \<open>WITH\<close> is
  dropped. \<open>substring(-1)\<close> is the whole string.
\<close>

definition cleanSQLResponse :: "jsstring \<Rightarrow> jsstring" where
  "cleanSQLResponse response =
     (let sql = trim response;
          sql = replace True (seqs [Bol, Lit (js ''```sql''), Star isWhiteSpace]) [] sql;
          sql = replace True (seqs [Bol, Lit (js ''```''), Star isWhiteSpace]) [] sql;
          sql = replace True (seqs [Star isWhiteSpace, Lit (js ''```''), Eol]) [] sql;
          sql = replaceAll False (Alt (Seq Bol (Plus isQuote)) (Seq (Plus isQuote) Eol)) [] sql;
          sql = (case exec True (seqs [WordB, alts [Lit (js ''SELECT''), Lit (js ''WITH'')],
                                       Plus isWhiteSpace]) sql 0 of
                   None \<Rightarrow> sql
                 | Some (i, j) \<Rightarrow>
                     (case indexOf sql (take (j - i) (drop i sql)) of
                        None \<Rightarrow> sql
                      | Some startIndex \<Rightarrow> drop startIndex sql));
          sql = trim sql
      in if \<not> endsWith sql (js '';'') then sql @ js '';'' else sql)"

text \<open>
  The options of a request and the environment variables the program reads, the latter
  after \<open>parseInt\<close>. A missing number, \<open>0\<close> and \<open>NaN\<close> (what \<open>parseInt\<close> gives for a
  missing or malformed variable) are all falsy for \<open>||\<close>. For the timeouts and the cache
  the three are modelled as \<open>0\<close>, and a missing \<open>requestId\<close> as the empty string. The
  row maximum is written into the statement, so its value is kept as it is: \<open>'n\<close> is the
  type of the JavaScript numbers, \<open>Some n\<close> is a truthy number (negative, fractional and
  infinite ones included) and \<open>None\<close> a falsy one.
\<close>

record 'n options =
  timeout :: nat
  maxRows :: "'n option"
  explain :: bool
  requestId :: jsstring

record 'n env =
  QUERY_TIMEOUT_MS :: nat
  MAX_RESULT_ROWS :: "'n option"
  SCHEMA_CACHE_MAX_SIZE :: nat
  SCHEMA_CACHE_TTL_MS :: nat

text \<open>
  The decimal digits of a natural number. This is what \<open>toString\<close> and a template
  literal give for an integer below \<open>2^53\<close>, which every reading of \<open>Date.now()\<close> is.
\<close>

fun decimal :: "nat \<Rightarrow> jsstring" where
  "decimal n = (if n < 10 then [48 + int n] else decimal (n div 10) @ [48 + int (n mod 10)])"

declare decimal.simps [simp del]

record 'row execution =
  results :: "'row list"
  rowCount :: nat
  executionTimeMs :: int
  limitApplied :: bool

text \<open>
  executeSQL. \<open>executeWithTimeout limitedSQL t\<close> stands for the outcome of
  \<open>await executeWithTimeout(db, limitedSQL, [], t)\<close>: the rows, or the error the promise
  is rejected with. \<open>startTime\<close> and \<open>endTime\<close> are the two readings of \<open>Date.now()\<close>.
  The \<open>catch\<close> block logs and throws the same error again. \<open>numberToString\<close> is the
  conversion the template literal applies to \<open>maxRows\<close> (Number::toString of the
  language, which is not part of the program and never yields a \<open>$\<close>): it is a
  parameter, like \<open>toUpperCase\<close>. \<open>maxRows'\<close> is the text of the number; the default
  \<open>1000\<close> is printed as it is written.
\<close>

definition executeSQL ::
  "(jsstring \<Rightarrow> jsstring) \<Rightarrow> ('n \<Rightarrow> jsstring) \<Rightarrow> (jsstring \<Rightarrow> nat \<Rightarrow> error + 'row list) \<Rightarrow>
   'n env \<Rightarrow> 'n options \<Rightarrow> int \<Rightarrow> int \<Rightarrow> jsstring \<Rightarrow> error + 'row execution" where
  "executeSQL toUpperCase numberToString executeWithTimeout environment opts startTime endTime sql =
     (let timeout' = (if timeout opts \<noteq> 0 then timeout opts
                      else if QUERY_TIMEOUT_MS environment \<noteq> 0 then QUERY_TIMEOUT_MS environment
                      else 30000);
          maxRows' = (case maxRows opts of
                        Some n \<Rightarrow> numberToString n
                      | None \<Rightarrow> (case MAX_RESULT_ROWS environment of
                                   Some n \<Rightarrow> numberToString n
                                 | None \<Rightarrow> js ''1000''))
      in case validateSQL toUpperCase sql of
           Inl e \<Rightarrow> Inl e
         | Inr ok \<Rightarrow>
             (let limitedSQL =
                    (if \<not> test True (seqs [WordB, Lit (js ''LIMIT''), Plus isWhiteSpace, Plus isDigit]) sql
                     then replace False (seqs [Opt (Lit (js '';'')), Star isWhiteSpace, Eol])
                            (js '' LIMIT '' @ maxRows' @ js '';'') sql
                     else sql)
              in case executeWithTimeout limitedSQL timeout' of
                   Inl e \<Rightarrow> Inl e
                 | Inr rows \<Rightarrow>
                     Inr \<lparr>results = rows, rowCount = length rows,
                          executionTimeMs = endTime - startTime,
                          limitApplied = (limitedSQL \<noteq> sql)\<rparr>))"

text \<open>
  executeWithTimeout of the database module, which executeSQL is given as its way to the
  database. It races the promise of \<open>db.asyncAll(sql, params)\<close> against a timer that
  rejects with \<open>Query timed out after ...ms\<close>. What \<open>asyncAll\<close> does depends on the
  connection. The SQLite connection (better-sqlite3) runs the statement to its end inside
  the call, \<open>Promise.resolve(db.prepare(sql).all(...))\<close>: the call takes the time of the
  query and gives a promise that is settled already (an exception of the call rejects the
  promise of the \<open>async\<close> function). A connection pool (mysql2, pg) gives a pending promise
  at once, which settles when the query has run, or never. \<open>Blocking d r\<close> and
  \<open>Async d r\<close> are the two kinds, with the duration \<open>d\<close> of the query in milliseconds
  and its outcome \<open>r\<close>; \<open>Never\<close> is a pending promise that does not settle.
\<close>

datatype 'row answer =
    Blocking nat "error + 'row list"
  | Async nat "error + 'row list"
  | Never

text \<open>
  The delay of \<open>setTimeout\<close>: a delay below 1 or above \<open>2^31 - 1\<close> is taken as 1.
\<close>

definition timerDelay :: "nat \<Rightarrow> nat" where
  "timerDelay after = (if 1 \<le> after \<and> after \<le> 2147483647 then after else 1)"

text \<open>
  \<open>Promise.race\<close> settles as the first of its promises that settles. A promise that is
  settled when the race starts wins against the timer, whose callback runs in a later
  turn of the event loop. When the query and the timer end in the same millisecond the
  program does not determine the order: \<open>timerFirst\<close> tells which callback runs first.
  \<open>numberToString\<close> is the conversion of the template literal, as in executeSQL.
\<close>

definition executeWithTimeout' ::
  "(nat \<Rightarrow> jsstring) \<Rightarrow> bool \<Rightarrow> (jsstring \<Rightarrow> 'row answer) \<Rightarrow> jsstring \<Rightarrow> nat \<Rightarrow> error + 'row list" where
  "executeWithTimeout' numberToString timerFirst asyncAll sql timeout' =
     (let timedOut = Inl (OtherError (js ''Query timed out after '' @ numberToString timeout' @ js ''ms''))
      in case asyncAll sql of
           Blocking d outcome \<Rightarrow> outcome
         | Async d outcome \<Rightarrow>
             if timerDelay timeout' < d \<or> (d = timerDelay timeout' \<and> timerFirst) then timedOut
             else outcome
         | Never \<Rightarrow> timedOut)"

section \<open>The query history\<close>

text \<open>
  The entry queryFromQuestion hands to addToHistory: \<open>sql\<close> is \<open>null\<close> and \<open>error\<close>
  holds the message after a failure; the row count and the two timings are present after a
  success. No caller passes an \<open>id\<close>, so the spread \<open>...entry\<close> never replaces the
  one addToHistory assigns.
\<close>

record entry =
  e_requestId :: jsstring
  e_question :: jsstring
  e_sql :: "jsstring option"
  e_success :: bool
  e_error :: "jsstring option"
  e_rowCount :: "nat option"
  e_generationTimeMs :: "int option"
  e_executionTimeMs :: "int option"
  e_totalTimeMs :: int
  e_timestamp :: jsstring

text \<open>A stored entry: the one handed in, with its timestamp settled, and the \<open>id\<close>.\<close>

record stored =
  entryId :: nat
  stamped :: entry

definition MAX_HISTORY_SIZE :: nat where
  "MAX_HISTORY_SIZE = 1000"

text \<open>
  utils/queryHistory.js: the store is an array with the newest entry first. \<open>now\<close> is
  \<open>new Date().toISOString()\<close>, used when the entry has no timestamp.
\<close>

definition addToHistory :: "jsstring \<Rightarrow> entry \<Rightarrow> stored list \<Rightarrow> stored list" where
  "addToHistory now e history =
     (let history' =
            \<lparr>entryId = length history + 1,
             stamped = e\<lparr>e_timestamp := (if e_timestamp e \<noteq> [] then e_timestamp e else now)\<rparr>\<rparr>
            # history
      in if length history' > MAX_HISTORY_SIZE then butlast history' else history')"

definition getHistoryById :: "nat \<Rightarrow> stored list \<Rightarrow> stored option" where
  "getHistoryById i history = find (\<lambda>h. entryId h = i) history"

text \<open>A sequence of calls of addToHistory, each with its reading of the clock.\<close>

definition addAll :: "(jsstring \<times> entry) list \<Rightarrow> stored list \<Rightarrow> stored list" where
  "addAll calls history = foldl (\<lambda>h (now, e). addToHistory now e h) history calls"

text \<open>
  The other history module of the repository, which stores the entries in PostgreSQL.
  \<open>insertRow row\<close> stands for the outcome of \<open>await db.asyncAll(INSERT ...)\<close>. The function
  returns without writing when the table is not ready; a failed insert is caught and
  logged to the console (the line starts with the warning sign, the code units 9888 and
  65039).
\<close>

record historyRow =
  h_question :: jsstring
  h_sql :: jsstring
  h_success :: bool
  h_row_count :: nat
  h_generation_time_ms :: int
  h_execution_time_ms :: int
  h_error :: "jsstring option"

record historyDb =
  historyTableCreated :: bool
  query_history :: "historyRow list"
  console :: "jsstring list"

definition addToHistoryPg :: "(historyRow \<Rightarrow> error + unit) \<Rightarrow> entry \<Rightarrow> historyDb \<Rightarrow> historyDb" where
  "addToHistoryPg insertRow e db =
     (if \<not> historyTableCreated db then db
      else let row = \<lparr>h_question = e_question e,
                       h_sql = (case e_sql e of None \<Rightarrow> [] | Some s \<Rightarrow> s),
                       h_success = e_success e,
                       h_row_count = (case e_rowCount e of None \<Rightarrow> 0 | Some n \<Rightarrow> n),
                       h_generation_time_ms = (case e_generationTimeMs e of None \<Rightarrow> 0 | Some n \<Rightarrow> n),
                       h_execution_time_ms = (case e_executionTimeMs e of None \<Rightarrow> 0 | Some n \<Rightarrow> n),
                       h_error = (case e_error e of None \<Rightarrow> None
                                  | Some m \<Rightarrow> if m = [] then None else Some m)\<rparr>
           in case insertRow row of
                Inl err \<Rightarrow> db\<lparr>console := console db @ [[9888, 65039] @ js '' Could not save to history: '' @ message err]\<rparr>
              | Inr done \<Rightarrow> db\<lparr>query_history := query_history db @ [row]\<rparr>)"

section \<open>Generating and answering a question\<close>

text \<open>
  generateSQL. \<open>rawSQL\<close> stands for everything in front of the cleaning: the schema (from
  the cache or from introspection), the prompt and \<open>await callGroqAI(...)\<close>; it is the
  raw answer of the model, or the error one of these steps throws. \<open>schemaUsed\<close> is
  \<open>getSimplifiedSchema(schema)\<close>, a table of the columns of each table.
\<close>

record 'c generation =
  g_sql :: jsstring
  g_generationTimeMs :: int
  g_schemaUsed :: "(jsstring \<times> 'c) list"

definition generateSQL ::
  "(jsstring \<Rightarrow> jsstring) \<Rightarrow> error + jsstring \<Rightarrow> (jsstring \<times> 'c) list \<Rightarrow> int \<Rightarrow> int \<Rightarrow>
   error + 'c generation" where
  "generateSQL toUpperCase rawSQL schemaUsed startTime endTime =
     (case rawSQL of
        Inl e \<Rightarrow> Inl e
      | Inr raw \<Rightarrow>
          (let sql = cleanSQL raw
           in case validateSQL toUpperCase sql of
                Inl e \<Rightarrow> Inl e
              | Inr ok \<Rightarrow> Inr \<lparr>g_sql = sql, g_generationTimeMs = endTime - startTime,
                                g_schemaUsed = schemaUsed\<rparr>))"

text \<open>The readings of the clock during one request, in the order of the source.\<close>

record clock =
  requestIdNow :: nat
  startNow :: int
  generationStart :: int
  generationEnd :: int
  executionStart :: int
  executionEnd :: int
  totalNow :: int
  successTimestamp :: jsstring
  failureNow :: int
  failureTimestamp :: jsstring

record 'row response =
  r_question :: jsstring
  r_sql :: jsstring
  r_results :: "'row list"
  r_rowCount :: nat
  r_explanation :: "jsstring option"
  r_timing_generation :: int
  r_timing_execution :: int
  r_timing_total :: int
  r_requestId :: jsstring
  r_limitApplied :: bool
  r_schemaTablesUsed :: "jsstring list"

text \<open>
  queryFromQuestion. \<open>explainWithAI\<close> is the outcome of the call of that name, whose
  failure is caught and logged. \<open>recorder\<close> is the history module in use: applied to an entry
  and the store it gives the new store, or the error it throws. An error thrown in the
  \<open>try\<close> block, also by the recorder, goes to the \<open>catch\<close> block, which records the
  failure and throws the error again; an error thrown by the recorder there leaves the
  function in place of it.
\<close>

definition queryFromQuestion ::
  "(jsstring \<Rightarrow> jsstring) \<Rightarrow> ('n \<Rightarrow> jsstring) \<Rightarrow> error + jsstring \<Rightarrow> (jsstring \<times> 'c) list \<Rightarrow>
   (jsstring \<Rightarrow> nat \<Rightarrow> error + 'row list) \<Rightarrow> error + jsstring \<Rightarrow> 'n env \<Rightarrow> 'n options \<Rightarrow>
   clock \<Rightarrow> (entry \<Rightarrow> 'h \<Rightarrow> error + 'h) \<Rightarrow> 'h \<Rightarrow> jsstring \<Rightarrow> (error + 'row response) \<times> 'h" where
  "queryFromQuestion toUpperCase numberToString rawSQL schemaUsed executeWithTimeout explainWithAI
     environment opts clk recorder history question =
     (let requestId' = (if requestId opts \<noteq> [] then requestId opts else decimal (requestIdNow clk));
          startTime = startNow clk;
          attempt =
            (case generateSQL toUpperCase rawSQL schemaUsed (generationStart clk) (generationEnd clk) of
               Inl e \<Rightarrow> Inl e
             | Inr generation \<Rightarrow>
                 (case executeSQL toUpperCase numberToString executeWithTimeout environment opts
                         (executionStart clk) (executionEnd clk) (g_sql generation) of
                    Inl e \<Rightarrow> Inl e
                  | Inr execution \<Rightarrow>
                      (let explanation =
                             (if explain opts \<and> length (results execution) > 0
                              then (case explainWithAI of Inl err \<Rightarrow> None | Inr text \<Rightarrow> Some text)
                              else None);
                           totalTime = totalNow clk - startTime
                       in case recorder
                                 \<lparr>e_requestId = requestId', e_question = question,
                                  e_sql = Some (g_sql generation), e_success = True, e_error = None,
                                  e_rowCount = Some (rowCount execution),
                                  e_generationTimeMs = Some (g_generationTimeMs generation),
                                  e_executionTimeMs = Some (executionTimeMs execution),
                                  e_totalTimeMs = totalTime,
                                  e_timestamp = successTimestamp clk\<rparr> history of
                            Inl e \<Rightarrow> Inl e
                          | Inr history' \<Rightarrow>
                              Inr (\<lparr>r_question = question, r_sql = g_sql generation,
                                    r_results = results execution, r_rowCount = rowCount execution,
                                    r_explanation = explanation,
                                    r_timing_generation = g_generationTimeMs generation,
                                    r_timing_execution = executionTimeMs execution,
                                    r_timing_total = totalTime,
                                    r_requestId = requestId',
                                    r_limitApplied = limitApplied execution,
                                    r_schemaTablesUsed = map fst (g_schemaUsed generation)\<rparr>,
                                   history'))))
      in case attempt of
           Inr (response, history') \<Rightarrow> (Inr response, history')
         | Inl err \<Rightarrow>
             (case recorder
                     \<lparr>e_requestId = requestId', e_question = question, e_sql = None,
                      e_success = False, e_error = Some (message err), e_rowCount = None,
                      e_generationTimeMs = None, e_executionTimeMs = None,
                      e_totalTimeMs = failureNow clk - startTime,
                      e_timestamp = failureTimestamp clk\<rparr> history of
                Inl e \<Rightarrow> (Inl e, history)
              | Inr history' \<Rightarrow> (Inl err, history')))"

section \<open>The schema cache\<close>

text \<open>
  utils/cache.js constructs an \<open>LRUCache\<close> of the package lru-cache and reads and writes
  through it; the class itself belongs to the package. Its model here follows the
  documented meaning of the four options the source passes. \<open>max\<close>: when a new key
  arrives at a full cache, the least recently used entry is dropped. \<open>ttl\<close>: an entry is
  stale once its age exceeds its time to live, and \<open>get\<close> removes a stale entry and
  returns \<open>undefined\<close>. \<open>updateAgeOnGet\<close>: a successful \<open>get\<close> sets the age of the entry
  back to zero. \<open>updateAgeOnHas\<close>: the same for \<open>has\<close>. The entries are listed from the
  most recently used to the least recently used; \<open>now\<close> is the reading of the clock, in
  milliseconds.
\<close>

record lruOptions =
  max' :: nat
  ttl :: int
  updateAgeOnGet :: bool
  updateAgeOnHas :: bool

record 'v lruEntry =
  c_key :: jsstring
  c_value :: 'v
  c_start :: int
  c_ttl :: int

definition isStale :: "int \<Rightarrow> 'v lruEntry \<Rightarrow> bool" where
  "isStale now e \<longleftrightarrow> c_ttl e \<noteq> 0 \<and> now - c_start e > c_ttl e"

definition lru_get :: "lruOptions \<Rightarrow> int \<Rightarrow> jsstring \<Rightarrow> 'v lruEntry list \<Rightarrow> 'v option \<times> 'v lruEntry list" where
  "lru_get opts now k entries =
     (case find (\<lambda>e. c_key e = k) entries of
        None \<Rightarrow> (None, entries)
      | Some e \<Rightarrow>
          if isStale now e then (None, filter (\<lambda>e'. c_key e' \<noteq> k) entries)
          else (Some (c_value e),
                (if updateAgeOnGet opts then e\<lparr>c_start := now\<rparr> else e)
                # filter (\<lambda>e'. c_key e' \<noteq> k) entries))"

definition lru_set ::
  "lruOptions \<Rightarrow> int \<Rightarrow> jsstring \<Rightarrow> 'v \<Rightarrow> int option \<Rightarrow> 'v lruEntry list \<Rightarrow> 'v lruEntry list" where
  "lru_set opts now k v ttlOption entries =
     (let e = \<lparr>c_key = k, c_value = v, c_start = now,
                c_ttl = (case ttlOption of None \<Rightarrow> ttl opts | Some t \<Rightarrow> t)\<rparr>;
          others = filter (\<lambda>e'. c_key e' \<noteq> k) entries
      in if find (\<lambda>e'. c_key e' = k) entries = None \<and> length entries \<ge> max' opts
         then e # butlast others
         else e # others)"

text \<open>The cache of utils/cache.js, with its configuration from the environment.\<close>

definition cacheOptions :: "'n env \<Rightarrow> lruOptions" where
  "cacheOptions environment =
     \<lparr>max' = (if SCHEMA_CACHE_MAX_SIZE environment \<noteq> 0 then SCHEMA_CACHE_MAX_SIZE environment else 50),
      ttl = (if SCHEMA_CACHE_TTL_MS environment \<noteq> 0 then int (SCHEMA_CACHE_TTL_MS environment) else 300000),
      updateAgeOnGet = True,
      updateAgeOnHas = True\<rparr>"

definition getSchemaFromCache ::
  "'n env \<Rightarrow> int \<Rightarrow> jsstring \<Rightarrow> 'v lruEntry list \<Rightarrow> 'v option \<times> 'v lruEntry list" where
  "getSchemaFromCache environment now k cache = lru_get (cacheOptions environment) now k cache"

definition setSchemaInCache ::
  "'n env \<Rightarrow> int \<Rightarrow> jsstring \<Rightarrow> 'v \<Rightarrow> int option \<Rightarrow> 'v lruEntry list \<Rightarrow> 'v lruEntry list" where
  "setSchemaInCache environment now k schema ttlOption cache =
     lru_set (cacheOptions environment) now k schema ttlOption cache"

text \<open>Sample data: a recorded success for a question, and a store that is full.\<close>

definition sampleEntry :: "jsstring \<Rightarrow> entry" where
  "sampleEntry q =
     \<lparr>e_requestId = js ''r-1'', e_question = q, e_sql = Some (js ''SELECT 1;''), e_success = True,
      e_error = None, e_rowCount = Some 1, e_generationTimeMs = Some 120, e_executionTimeMs = Some 4,
      e_totalTimeMs = 130, e_timestamp = js ''2024-05-01T10:00:00.000Z''\<rparr>"

definition fullHistory :: "stored list" where
  "fullHistory = replicate 1000 \<lparr>entryId = 7, stamped = sampleEntry (js ''earlier'')\<rparr>"

section \<open>The notions of the specification\<close>

text \<open>
  A whole-word, case-insensitive occurrence of \<open>w\<close> (written in upper case) in \<open>s\<close>, in
  the words of the specification: the text is there, and neither the code unit in front
  of it nor the one after it is a word character.
\<close>

definition wholeWordAt :: "jsstring \<Rightarrow> jsstring \<Rightarrow> nat \<Rightarrow> bool" where
  "wholeWordAt w s i \<longleftrightarrow>
     i + length w \<le> length s \<and> map upperASCII (take (length w) (drop i s)) = w \<and>
     (i = 0 \<or> \<not> isWordChar (s ! (i - 1))) \<and>
     (i + length w = length s \<or> \<not> isWordChar (s ! (i + length w)))"

definition containsWholeWord :: "jsstring \<Rightarrow> jsstring \<Rightarrow> bool" where
  "containsWholeWord w s \<longleftrightarrow> (\<exists>i \<in> set [0 ..< Suc (length s)]. wholeWordAt w s i)"

text \<open>The words and phrases of the read-only rule.\<close>

definition blockedWords :: "jsstring list" where
  "blockedWords = map js
     [''INSERT'', ''UPDATE'', ''DELETE'', ''DROP'', ''TRUNCATE'', ''ALTER'', ''CREATE'', ''GRANT'',
      ''REVOKE'', ''EXEC'', ''EXECUTE'', ''EVAL'', ''INTO OUTFILE'', ''INTO DUMPFILE'', ''LOAD_FILE'']"

text \<open>
  The segments of a statement split at the terminator: those that are not the empty string
  (the words of the specification), and those that validateSQL counts, which have
  something left after \<open>trim\<close>.
\<close>

definition nonEmptySegments :: "jsstring \<Rightarrow> jsstring list" where
  "nonEmptySegments sql = filter (\<lambda>seg. seg \<noteq> []) (split 59 sql)"

definition nonBlankSegments :: "jsstring \<Rightarrow> jsstring list" where
  "nonBlankSegments sql = filter (\<lambda>seg. length (trim seg) > 0) (split 59 sql)"

text \<open>A case-insensitive occurrence of the text \<open>w\<close> (in upper case) somewhere in \<open>s\<close>.\<close>

definition containsText :: "jsstring \<Rightarrow> jsstring \<Rightarrow> bool" where
  "containsText w s \<longleftrightarrow>
     (\<exists>i \<in> set [0 ..< Suc (length s)].
        i + length w \<le> length s \<and> map upperASCII (take (length w) (drop i s)) = w)"

text \<open>
  The notions of the row-limit rule. In the words of the specification, a statement has a
  LIMIT clause when the keyword \<open>LIMIT\<close> is one of its words. The words of a statement
  stand outside its string literals and its comments: \<open>statementWords\<close> keeps that text
  (the quotes of a literal stay, a comment becomes a space). A LIMIT is appended
  immediately before the terminator when the text sent ends with the LIMIT and the
  terminator and holds no terminator in front of them.
\<close>

datatype lexical = InCode | InLiteral | InLineComment | InBlockComment

fun statementWords :: "lexical \<Rightarrow> jsstring \<Rightarrow> jsstring" where
  "statementWords place [] = []"
| "statementWords InCode (c # cs) =
     (if c = 39 then c # statementWords InLiteral cs
      else if c = 45 \<and> take 1 cs = [45] then 32 # statementWords InLineComment (drop 1 cs)
      else if c = 47 \<and> take 1 cs = [42] then 32 # statementWords InBlockComment (drop 1 cs)
      else c # statementWords InCode cs)"
| "statementWords InLiteral (c # cs) =
     (if c = 39 then c # statementWords InCode cs else statementWords InLiteral cs)"
| "statementWords InLineComment (c # cs) =
     (if isLineTerminator c then c # statementWords InCode cs else statementWords InLineComment cs)"
| "statementWords InBlockComment (c # cs) =
     (if c = 42 \<and> take 1 cs = [47] then statementWords InCode (drop 1 cs)
      else statementWords InBlockComment cs)"

definition hasLimitClause :: "jsstring \<Rightarrow> bool" where
  "hasLimitClause sql \<longleftrightarrow> containsWholeWord (js ''LIMIT'') (statementWords InCode sql)"

definition appendedBeforeTerminator :: "jsstring \<Rightarrow> jsstring \<Rightarrow> bool" where
  "appendedBeforeTerminator limit sent \<longleftrightarrow>
     endsWith sent (limit @ js '';'') \<and> 59 \<notin> set (take (length sent - length (limit @ js '';'')) sent)"

text \<open>
  The textual notion the amended rule is about: somewhere in the text, inside a string
  literal or not, the word \<open>LIMIT\<close> (a word character does not stand in front of it) is
  followed by whitespace and then a digit.
\<close>

definition limitNumberAt :: "jsstring \<Rightarrow> nat \<Rightarrow> bool" where
  "limitNumberAt s i \<longleftrightarrow>
     i + 5 \<le> length s \<and> map upperASCII (take 5 (drop i s)) = js ''LIMIT'' \<and>
     (i = 0 \<or> \<not> isWordChar (s ! (i - 1))) \<and>
     takeWhile isWhiteSpace (drop (i + 5) s) \<noteq> [] \<and>
     (case dropWhile isWhiteSpace (drop (i + 5) s) of [] \<Rightarrow> False | c # rest \<Rightarrow> isDigit c)"

definition mentionsLimitNumber :: "jsstring \<Rightarrow> bool" where
  "mentionsLimitNumber s \<longleftrightarrow> (\<exists>i \<in> set [0 ..< Suc (length s)]. limitNumberAt s i)"

text \<open>
  The statement without its terminator: without its trailing whitespace and without the
  one terminator in front of that. A statement has one terminator at most when nothing
  of what is left is a terminator.
\<close>

definition withoutTerminator :: "jsstring \<Rightarrow> jsstring" where
  "withoutTerminator s =
     (let t = rev (dropWhile isWhiteSpace (rev s))
      in if t \<noteq> [] \<and> last t = 59 then butlast t else t)"

definition oneTerminatorAtMost :: "jsstring \<Rightarrow> bool" where
  "oneTerminatorAtMost s \<longleftrightarrow> 59 \<notin> set (withoutTerminator s)"

text \<open>
  The configured maximum, as the text the template literal gives for it, and the
  configured timeout: from the options, then from the environment, then the default.
\<close>

definition configuredMaximum :: "('n \<Rightarrow> jsstring) \<Rightarrow> 'n env \<Rightarrow> 'n options \<Rightarrow> jsstring" where
  "configuredMaximum numberToString environment opts =
     (case maxRows opts of
        Some n \<Rightarrow> numberToString n
      | None \<Rightarrow> (case MAX_RESULT_ROWS environment of
                   Some n \<Rightarrow> numberToString n
                 | None \<Rightarrow> js ''1000''))"

definition configuredTimeout :: "'n env \<Rightarrow> 'n options \<Rightarrow> nat" where
  "configuredTimeout environment opts =
     (if timeout opts \<noteq> 0 then timeout opts
      else if QUERY_TIMEOUT_MS environment \<noteq> 0 then QUERY_TIMEOUT_MS environment
      else 30000)"

text \<open>
  An already clean statement, in the words of the specification: trimmed, ending with
  exactly one terminator, without a code fence and without a quote character at either end.
\<close>

definition startsWithQuote :: "jsstring \<Rightarrow> bool" where
  "startsWithQuote s \<longleftrightarrow> (case s of [] \<Rightarrow> False | c # rest \<Rightarrow> isQuote c)"

definition endsWithQuote :: "jsstring \<Rightarrow> bool" where
  "endsWithQuote s \<longleftrightarrow> startsWithQuote (rev s)"

definition alreadyClean :: "jsstring \<Rightarrow> bool" where
  "alreadyClean s \<longleftrightarrow>
     trim s = s \<and> endsWith s (js '';'') \<and> \<not> endsWith s (js '';;'') \<and>
     \<not> startsWith s (js ''```'') \<and> \<not> endsWith s (js ''```'') \<and>
     \<not> startsWithQuote s \<and> \<not> endsWithQuote s"

section \<open>Facts about the matcher\<close>

lemma ms_Lit_iff:
  "j \<in> set (ms ic (Lit w) s i) \<longleftrightarrow>
     j = i + length w \<and> i + length w \<le> length s \<and>
     map (canon ic) (take (length w) (drop i s)) = map (canon ic) w"
  by auto

lemma ms_Star_iff:
  "j \<in> set (ms ic (Star P) s i) \<longleftrightarrow> i \<le> j \<and> j \<le> i + length (takeWhile P (drop i s))"
proof
  assume "j \<in> set (ms ic (Star P) s i)"
  then show "i \<le> j \<and> j \<le> i + length (takeWhile P (drop i s))"
    by (auto simp del: upt_Suc)
next
  assume a: "i \<le> j \<and> j \<le> i + length (takeWhile P (drop i s))"
  then have "j - i \<in> {0 ..< Suc (length (takeWhile P (drop i s)))}" and "j = i + (j - i)"
    by auto
  then have "j \<in> (\<lambda>k. i + k) ` {0 ..< Suc (length (takeWhile P (drop i s)))}"
    by (rule_tac image_eqI)
  then show "j \<in> set (ms ic (Star P) s i)"
    by (simp del: upt_Suc)
qed

lemma ms_Plus_iff:
  "j \<in> set (ms ic (Plus P) s i) \<longleftrightarrow> i < j \<and> j \<le> i + length (takeWhile P (drop i s))"
proof
  assume "j \<in> set (ms ic (Plus P) s i)"
  then show "i < j \<and> j \<le> i + length (takeWhile P (drop i s))"
    by (auto simp del: upt_Suc)
next
  assume a: "i < j \<and> j \<le> i + length (takeWhile P (drop i s))"
  then have "j - i \<in> {1 ..< Suc (length (takeWhile P (drop i s)))}" and "j = i + (j - i)"
    by auto
  then have "j \<in> (\<lambda>k. i + k) ` {1 ..< Suc (length (takeWhile P (drop i s)))}"
    by (rule_tac image_eqI)
  then show "j \<in> set (ms ic (Plus P) s i)"
    by (simp del: upt_Suc)
qed

lemma ms_Seq_iff:
  "j \<in> set (ms ic (Seq a b) s i) \<longleftrightarrow> (\<exists>m. m \<in> set (ms ic a s i) \<and> j \<in> set (ms ic b s m))"
  by auto

lemma ms_Alt_iff:
  "j \<in> set (ms ic (Alt a b) s i) \<longleftrightarrow> j \<in> set (ms ic a s i) \<or> j \<in> set (ms ic b s i)"
  by simp

lemma ms_Opt_iff:
  "j \<in> set (ms ic (Opt r) s i) \<longleftrightarrow> j \<in> set (ms ic r s i) \<or> j = i"
  by auto

lemma ms_Bol_iff: "j \<in> set (ms ic Bol s i) \<longleftrightarrow> i = 0 \<and> j = 0"
  by auto

lemma ms_Eol_iff: "j \<in> set (ms ic Eol s i) \<longleftrightarrow> i = length s \<and> j = i"
  by auto

lemma ms_WordB_iff:
  "j \<in> set (ms ic WordB s i) \<longleftrightarrow>
     j = i \<and> ((0 < i \<and> i \<le> length s \<and> isWordChar (s ! (i - 1))) \<noteq> (i < length s \<and> isWordChar (s ! i)))"
  by auto

declare ms.simps [simp del]

lemma exec_None_iff:
  "exec ic r s k = None \<longleftrightarrow> (\<forall>i. k \<le> i \<and> i \<le> length s \<longrightarrow> ms ic r s i = [])"
proof -
  have "exec ic r s k = None \<longleftrightarrow> find (\<lambda>i. ms ic r s i \<noteq> []) [k ..< Suc (length s)] = None"
    unfolding exec_def by (simp del: upt_Suc split: option.splits)
  also have "\<dots> \<longleftrightarrow> (\<forall>i. k \<le> i \<and> i \<le> length s \<longrightarrow> ms ic r s i = [])"
    unfolding find_None_iff by (auto simp del: upt_Suc)
  finally show ?thesis .
qed

lemma test_iff: "test ic r s \<longleftrightarrow> (\<exists>i j. i \<le> length s \<and> j \<in> set (ms ic r s i))"
proof -
  have "test ic r s \<longleftrightarrow> \<not> (\<forall>i. 0 \<le> i \<and> i \<le> length s \<longrightarrow> ms ic r s i = [])"
    unfolding test_def exec_None_iff ..
  also have "\<dots> \<longleftrightarrow> (\<exists>i j. i \<le> length s \<and> j \<in> set (ms ic r s i))"
    by (metis all_not_in_conv le0 set_empty)
  finally show ?thesis .
qed

lemma replace_no_match: "exec ic r s 0 = None \<Longrightarrow> replace ic r rep s = s"
  by (simp add: replace_def)

lemma replaceAll_no_match: "exec ic r s 0 = None \<Longrightarrow> replaceAll ic r rep s = s"
  by (simp add: replaceAll_def)


lemma upperASCII_nonletter: "upperASCII c = d \<Longrightarrow> \<not> (65 \<le> d \<and> d \<le> 90) \<Longrightarrow> c = d"
  by (auto simp: upperASCII_def split: if_splits)

lemma canon_nonletter: "canon ic c = canon ic d \<Longrightarrow> \<not> (65 \<le> d \<and> d \<le> 90) \<Longrightarrow> \<not> (97 \<le> d \<and> d \<le> 122) \<Longrightarrow> c = d"
  by (auto simp: canon_def upperASCII_def split: if_splits)

lemma lit_match_first:
  assumes "w \<noteq> []" and "j \<in> set (ms ic (Lit w) s i)"
  shows "i < length s \<and> canon ic (s ! i) = canon ic (hd w)"
proof -
  from assms(2) have len: "i + length w \<le> length s"
    and eq: "map (canon ic) (take (length w) (drop i s)) = map (canon ic) w"
    unfolding ms_Lit_iff by simp_all
  from assms(1) have pos: "0 < length w" by simp
  with len have i: "i < length s" by linarith
  from eq have "map (canon ic) (take (length w) (drop i s)) ! 0 = map (canon ic) w ! 0" by simp
  with pos len i have "canon ic (s ! i) = canon ic (w ! 0)" by simp
  with assms(1) i show ?thesis by (simp add: hd_conv_nth)
qed

lemma lit_match_last:
  assumes "w \<noteq> []" and "j \<in> set (ms ic (Lit w) s i)"
  shows "0 < j \<and> j \<le> length s \<and> canon ic (s ! (j - 1)) = canon ic (last w)"
proof -
  from assms(2) have j: "j = i + length w" and len: "i + length w \<le> length s"
    and eq: "map (canon ic) (take (length w) (drop i s)) = map (canon ic) w"
    unfolding ms_Lit_iff by simp_all
  from assms(1) have pos: "0 < length w" by simp
  from eq have "map (canon ic) (take (length w) (drop i s)) ! (length w - 1)
      = map (canon ic) w ! (length w - 1)" by simp
  with pos len have "canon ic (s ! (i + (length w - 1))) = canon ic (w ! (length w - 1))" by simp
  moreover from pos j have "i + (length w - 1) = j - 1" by linarith
  ultimately have "canon ic (s ! (j - 1)) = canon ic (last w)"
    using assms(1) by (simp add: last_conv_nth)
  with pos j len show ?thesis by simp
qed

lemma startsWithQuote_nth: "0 < length s \<Longrightarrow> isQuote (s ! 0) \<Longrightarrow> startsWithQuote s"
  by (cases s) (simp_all add: startsWithQuote_def)

lemma endsWithQuote_last: "s \<noteq> [] \<Longrightarrow> isQuote (last s) \<Longrightarrow> endsWithQuote s"
  by (cases s rule: rev_cases) (simp_all add: endsWithQuote_def startsWithQuote_def)

lemma no_match_fence_start:
  assumes "\<not> startsWithQuote s" and "w \<noteq> []" and "hd w = 96"
  shows "exec True (Seq Bol (Seq (Lit w) r)) s 0 = None"
proof -
  have "ms True (Seq Bol (Seq (Lit w) r)) s i = []" for i
  proof (rule ccontr)
    assume "ms True (Seq Bol (Seq (Lit w) r)) s i \<noteq> []"
    then obtain j where "j \<in> set (ms True (Seq Bol (Seq (Lit w) r)) s i)"
      by (meson all_not_in_conv set_empty)
    then obtain m where "m \<in> set (ms True (Lit w) s 0)"
      unfolding ms_Seq_iff ms_Bol_iff by blast
    from lit_match_first [OF assms(2) this] assms(3)
    have "0 < length s" and "canon True (s ! 0) = canon True 96" by simp_all
    then have "s ! 0 = 96" using canon_nonletter [of True "s ! 0" 96] by simp
    with \<open>0 < length s\<close> have "startsWithQuote s"
      by (intro startsWithQuote_nth) (simp_all add: isQuote_def)
    with assms(1) show False by simp
  qed
  then show ?thesis unfolding exec_None_iff by simp
qed

lemma no_match_fence_end:
  assumes "\<not> endsWithQuote s" and "w \<noteq> []" and "last w = 96"
  shows "exec True (Seq (Star P) (Seq (Lit w) Eol)) s 0 = None"
proof -
  have "ms True (Seq (Star P) (Seq (Lit w) Eol)) s i = []" for i
  proof (rule ccontr)
    assume "ms True (Seq (Star P) (Seq (Lit w) Eol)) s i \<noteq> []"
    then obtain j where "j \<in> set (ms True (Seq (Star P) (Seq (Lit w) Eol)) s i)"
      by (meson all_not_in_conv set_empty)
    then obtain m where m: "length s \<in> set (ms True (Lit w) s m)"
      unfolding ms_Seq_iff ms_Eol_iff by blast
    from lit_match_last [OF assms(2) m] assms(3)
    have pos: "0 < length s" and "canon True (s ! (length s - 1)) = canon True 96"
      by simp_all
    then have "s ! (length s - 1) = 96" using canon_nonletter [of True "s ! (length s - 1)" 96] by simp
    moreover from pos have "s \<noteq> []" by auto
    ultimately have "last s = 96" using last_conv_nth [of s] by simp
    with \<open>s \<noteq> []\<close> have "endsWithQuote s"
      by (intro endsWithQuote_last) (simp_all add: isQuote_def)
    with assms(1) show False by simp
  qed
  then show ?thesis unfolding exec_None_iff by simp
qed

lemma takeWhile_all: "length xs \<le> length (takeWhile P xs) \<Longrightarrow> \<forall>x \<in> set xs. P x"
proof -
  assume "length xs \<le> length (takeWhile P xs)"
  then have "length (takeWhile P xs) = length xs"
    using length_takeWhile_le [of P xs] by simp
  then have "takeWhile P xs = xs"
    by (metis takeWhile_eq_take take_all order_refl)
  then show ?thesis by (simp add: takeWhile_eq_all_conv)
qed

lemma no_match_quotes:
  assumes "\<not> startsWithQuote s" and "\<not> endsWithQuote s"
  shows "exec False (Alt (Seq Bol (Plus isQuote)) (Seq (Plus isQuote) Eol)) s 0 = None"
proof -
  have "ms False (Alt (Seq Bol (Plus isQuote)) (Seq (Plus isQuote) Eol)) s i = []" for i
  proof (rule ccontr)
    assume "ms False (Alt (Seq Bol (Plus isQuote)) (Seq (Plus isQuote) Eol)) s i \<noteq> []"
    then obtain j where "j \<in> set (ms False (Alt (Seq Bol (Plus isQuote)) (Seq (Plus isQuote) Eol)) s i)"
      by (meson all_not_in_conv set_empty)
    then consider (atStart) m where "m \<in> set (ms False (Plus isQuote) s 0)"
      | (atEnd) "length s \<in> set (ms False (Plus isQuote) s i)"
      unfolding ms_Alt_iff ms_Seq_iff ms_Bol_iff ms_Eol_iff by blast
    then show False
    proof cases
      case atStart
      then have "takeWhile isQuote s \<noteq> []"
        unfolding ms_Plus_iff by (cases "takeWhile isQuote s") auto
      then have "s \<noteq> [] \<and> isQuote (hd s)" by (cases s) (auto split: if_splits)
      then have "startsWithQuote s" by (cases s) (simp_all add: startsWithQuote_def)
      with assms(1) show False by simp
    next
      case atEnd
      then have i: "i < length s" and "length s \<le> i + length (takeWhile isQuote (drop i s))"
        unfolding ms_Plus_iff by simp_all
      then have "length (drop i s) \<le> length (takeWhile isQuote (drop i s))" by simp
      from takeWhile_all [OF this] have all: "\<forall>x \<in> set (drop i s). isQuote x" .
      from i have "drop i s \<noteq> []" by simp
      then have "last (drop i s) \<in> set (drop i s)" by (rule last_in_set)
      with i all have "isQuote (last s)" by simp
      with i have "endsWithQuote s" by (intro endsWithQuote_last) auto
      with assms(2) show False by simp
    qed
  qed
  then show ?thesis unfolding exec_None_iff by simp
qed

lemma cleanSQL_plain:
  assumes "\<not> startsWithQuote (trim s)" and "\<not> endsWithQuote (trim s)"
  shows "cleanSQL s = (if endsWith (trim s) (js '';'') then trim s else trim s @ js '';'')"
proof -
  have 1: "replace True (seqs [Bol, Lit (js ''```sql''), Star isWhiteSpace]) [] (trim s) = trim s"
    using no_match_fence_start [OF assms(1), of "js ''```sql''"]
    by (simp add: replace_no_match js_def)
  have 2: "replace True (seqs [Bol, Lit (js ''```''), Star isWhiteSpace]) [] (trim s) = trim s"
    using no_match_fence_start [OF assms(1), of "js ''```''"]
    by (simp add: replace_no_match js_def)
  have 3: "replace True (seqs [Star isWhiteSpace, Lit (js ''```''), Eol]) [] (trim s) = trim s"
    using no_match_fence_end [OF assms(2), of "js ''```''"]
    by (simp add: replace_no_match js_def)
  have 4: "replaceAll False (Alt (Seq Bol (Plus isQuote)) (Seq (Plus isQuote) Eol)) [] (trim s) = trim s"
    using no_match_quotes [OF assms] by (simp add: replaceAll_no_match)
  show ?thesis unfolding cleanSQL_def Let_def 1 2 3 4 by simp
qed

section \<open>Statement anchor\<close>

text \<open>
  C1. The claim: the sanitizer of the SQL service (cleanSQL, then validateSQL) discards the
  text in front of the first \<open>SELECT\<close> or \<open>WITH\<close>, so that the response
  \<open>Sure! SELECT TOP 5 * FROM Products\<close> becomes \<open>SELECT TOP 5 * FROM Products;\<close> and is
  accepted. On the code, cleanSQL keeps the commentary and validateSQL rejects the
  statement with "Only SELECT queries are allowed"; cleanSQLResponse, the sanitizer of the
  other AI client, does drop the commentary, and its result is accepted.
\<close>

theorem cleanSQL_keeps_commentary:
  "cleanSQL (js ''Sure! SELECT TOP 5 * FROM Products'') = js ''Sure! SELECT TOP 5 * FROM Products;''
   \<and> validateSQL toUpperCaseASCII (cleanSQL (js ''Sure! SELECT TOP 5 * FROM Products''))
       = Inl OnlySelectAllowed
   \<and> cleanSQLResponse (js ''Sure! SELECT TOP 5 * FROM Products'') = js ''SELECT TOP 5 * FROM Products;''
   \<and> validateSQL toUpperCaseASCII (cleanSQLResponse (js ''Sure! SELECT TOP 5 * FROM Products''))
       = Inr True"
  by code_simp

section \<open>Cleaning a clean statement\<close>

text \<open>
  C9. cleanSQL is a no-op on every already clean statement (trimmed, ending with exactly
  one terminator, no code fences, no surrounding quotes), and therefore idempotent on
  such statements: \<open>cleanSQL (cleanSQL s) = cleanSQL s\<close>.
\<close>

theorem cleanSQL_noop_on_clean:
  "alreadyClean s \<Longrightarrow> cleanSQL s = s \<and> cleanSQL (cleanSQL s) = cleanSQL s"
proof -
  assume a: "alreadyClean s"
  then have "cleanSQL s = s"
    using cleanSQL_plain [of s] by (simp add: alreadyClean_def)
  then show ?thesis by simp
qed


theorem cleanSQL_noop_on_clean_witness:
  "alreadyClean (js ''SELECT Name FROM Customers;'')
   \<and> cleanSQL (js ''SELECT Name FROM Customers;'') = js ''SELECT Name FROM Customers;''
   \<and> cleanSQL (cleanSQL (js ''SELECT Name FROM Customers;'')) = cleanSQL (js ''SELECT Name FROM Customers;'')"
proof -
  have h: "alreadyClean (js ''SELECT Name FROM Customers;'')" by code_simp
  from cleanSQL_noop_on_clean [OF h] h show ?thesis by blast
qed

section \<open>Read-only enforcement\<close>

lemma upperASCII_idem: "upperASCII (upperASCII c) = upperASCII c"
  by (simp add: upperASCII_def)

lemma isWordChar_upper: "isWordChar (upperASCII c) = isWordChar c"
  by (auto simp: upperASCII_def isWordChar_def)

lemma ms_alts: "r \<in> set rs \<Longrightarrow> j \<in> set (ms ic r s i) \<Longrightarrow> j \<in> set (ms ic (alts rs) s i)"
proof (induction rs rule: alts.induct)
  case 1
  then show ?case by simp
next
  case (2 r')
  then show ?case by simp
next
  case (3 r' v va)
  then show ?case by (auto simp: ms_Alt_iff)
qed

lemma canon_True: "canon True = upperASCII"
  by (rule ext) (simp add: canon_def)

lemma seg_upper_lit:
  assumes "i + length w \<le> length s" and "map upperASCII (take (length w) (drop i s)) = w"
  shows "i + length w \<in> set (ms True (Lit w) s i)"
proof -
  have "map upperASCII (map upperASCII (take (length w) (drop i s)))
        = map upperASCII (take (length w) (drop i s))"
    by (simp add: upperASCII_idem)
  with assms(2) have "map upperASCII w = map upperASCII (take (length w) (drop i s))"
    by simp
  with assms(1) show ?thesis unfolding ms_Lit_iff canon_True by simp
qed

lemma seg_first:
  assumes "w \<noteq> []" and "i + length w \<le> length s" and "map upperASCII (take (length w) (drop i s)) = w"
  shows "upperASCII (s ! i) = hd w"
proof -
  from assms(1) have pos: "0 < length w" by simp
  from assms(3) have "map upperASCII (take (length w) (drop i s)) ! 0 = w ! 0" by simp
  with pos assms(2) have "upperASCII (s ! i) = w ! 0" by simp
  with assms(1) show ?thesis by (simp add: hd_conv_nth)
qed

lemma seg_last:
  assumes "w \<noteq> []" and "i + length w \<le> length s" and "map upperASCII (take (length w) (drop i s)) = w"
  shows "upperASCII (s ! (i + length w - 1)) = last w"
proof -
  from assms(1) have pos: "0 < length w" by simp
  from assms(3) have "map upperASCII (take (length w) (drop i s)) ! (length w - 1) = w ! (length w - 1)" by simp
  with pos assms(2) have "upperASCII (s ! (i + (length w - 1))) = w ! (length w - 1)" by simp
  moreover from pos have "i + (length w - 1) = i + length w - 1" by linarith
  ultimately show ?thesis using assms(1) by (simp add: last_conv_nth)
qed

lemma wordB_before:
  assumes "i < length s" and "isWordChar (s ! i)" and "i = 0 \<or> \<not> isWordChar (s ! (i - 1))"
  shows "i \<in> set (ms ic WordB s i)"
  using assms unfolding ms_WordB_iff by auto

lemma wordB_after:
  assumes "0 < j" and "j \<le> length s" and "isWordChar (s ! (j - 1))"
    and "j = length s \<or> \<not> isWordChar (s ! j)"
  shows "j \<in> set (ms ic WordB s j)"
  using assms unfolding ms_WordB_iff by auto

lemma wholeWord_boundaries:
  assumes "wholeWordAt w s i" and "w \<noteq> []" and "isWordChar (hd w)" and "isWordChar (last w)"
  shows "i \<in> set (ms ic WordB s i) \<and> i + length w \<in> set (ms ic' WordB s (i + length w))"
proof -
  from assms(1) have len: "i + length w \<le> length s"
    and seg: "map upperASCII (take (length w) (drop i s)) = w"
    and l: "i = 0 \<or> \<not> isWordChar (s ! (i - 1))"
    and r: "i + length w = length s \<or> \<not> isWordChar (s ! (i + length w))"
    unfolding wholeWordAt_def by simp_all
  from assms(2) have pos: "0 < length w" by simp
  from seg_first [OF assms(2) len seg] assms(3) have f: "isWordChar (s ! i)"
    using isWordChar_upper [of "s ! i"] by simp
  from seg_last [OF assms(2) len seg] assms(4) have e: "isWordChar (s ! (i + length w - 1))"
    using isWordChar_upper [of "s ! (i + length w - 1)"] by simp
  from pos len have i: "i < length s" by linarith
  from pos have j: "0 < i + length w" by linarith
  from wordB_before [OF i f l] wordB_after [OF j len e r] show ?thesis by simp
qed

lemma wholeWord_plain:
  assumes "wholeWordAt w s i" and "w \<noteq> []" and "isWordChar (hd w)" and "isWordChar (last w)"
    and "Lit w \<in> set rs"
  shows "i + length w \<in> set (ms True (Seq WordB (Seq (alts rs) WordB)) s i)"
proof -
  from assms(1) have len: "i + length w \<le> length s"
    and seg: "map upperASCII (take (length w) (drop i s)) = w"
    unfolding wholeWordAt_def by simp_all
  from wholeWord_boundaries [OF assms(1-4)]
  have b: "i \<in> set (ms True WordB s i)" "i + length w \<in> set (ms True WordB s (i + length w))"
    by simp_all
  from ms_alts [OF assms(5) seg_upper_lit [OF len seg]]
  have "i + length w \<in> set (ms True (alts rs) s i)" .
  with b show ?thesis unfolding ms_Seq_iff by blast
qed

lemma seg_split:
  assumes "map f (take (length u + length v) (drop i s)) = u @ v"
  shows "map f (take (length u) (drop i s)) = u \<and> map f (take (length v) (drop (i + length u) s)) = v"
proof -
  have "take (length u + length v) (drop i s)
        = take (length u) (drop i s) @ take (length v) (drop (length u) (drop i s))"
    by (rule take_add)
  with assms have eq: "map f (take (length u) (drop i s)) @ map f (take (length v) (drop (length u) (drop i s))) = u @ v"
    by simp
  from assms have "length (map f (take (length u + length v) (drop i s))) = length (u @ v)" by simp
  then have "length u + length v \<le> length (drop i s)" by (simp add: min_def split: if_splits)
  then have "length (map f (take (length u) (drop i s))) = length u" by simp
  with eq have "map f (take (length u) (drop i s)) = u \<and> map f (take (length v) (drop (length u) (drop i s))) = v"
    by (simp add: append_eq_append_conv)
  then show ?thesis by (simp add: add.commute)
qed

lemma wholeWord_phrase:
  assumes "wholeWordAt (u @ [32] @ v) s i" and "u \<noteq> []" and "v \<noteq> []"
    and "isWordChar (hd u)" and "isWordChar (last v)"
  shows "i + length (u @ [32] @ v) \<in> set (ms True (seqs [WordB, Lit u, Plus isWhiteSpace, Lit v, WordB]) s i)"
proof -
  let ?w = "u @ [32] @ v"
  from assms(1) have len: "i + length ?w \<le> length s"
    and seg: "map upperASCII (take (length ?w) (drop i s)) = ?w"
    unfolding wholeWordAt_def by simp_all
  have "?w \<noteq> []" "hd ?w = hd u" "last ?w = last v" using assms(2,3) by simp_all
  with wholeWord_boundaries [OF assms(1), of True True] assms(4,5)
  have b: "i \<in> set (ms True WordB s i)" "i + length ?w \<in> set (ms True WordB s (i + length ?w))"
    by simp_all
  from seg have "map upperASCII (take (length u + length ([32] @ v)) (drop i s)) = u @ ([32] @ v)" by simp
  from seg_split [OF this]
  have su: "map upperASCII (take (length u) (drop i s)) = u"
    and rest: "map upperASCII (take (length [32::int] + length v) (drop (i + length u) s)) = [32] @ v" by simp_all
  from seg_split [OF rest]
  have sp: "map upperASCII (take (length [32::int]) (drop (i + length u) s)) = [32]"
    and sv: "map upperASCII (take (length v) (drop (i + length u + length [32::int]) s)) = v" by simp_all
  from len have lu: "i + length u \<le> length s" and lsp: "i + length u < length s"
    and lv: "i + length u + 1 + length v \<le> length s" by simp_all
  from seg_upper_lit [OF lu su] have 1: "i + length u \<in> set (ms True (Lit u) s i)" .
  from sp lsp have "upperASCII (s ! (i + length u)) = 32"
    by (simp add: take_Suc_conv_app_nth)
  then have "s ! (i + length u) = 32" using upperASCII_nonletter [of "s ! (i + length u)" 32] by simp
  then have "isWhiteSpace (s ! (i + length u))" by (simp add: isWhiteSpace_def)
  with lsp have "takeWhile isWhiteSpace (drop (i + length u) s) \<noteq> []"
    by (simp add: Cons_nth_drop_Suc [symmetric])
  then have "0 < length (takeWhile isWhiteSpace (drop (i + length u) s))" by simp
  then have 2: "i + length u + 1 \<in> set (ms True (Plus isWhiteSpace) s (i + length u))"
    unfolding ms_Plus_iff by linarith
  from sv lv have 3: "i + length u + 1 + length v \<in> set (ms True (Lit v) s (i + length u + 1))"
    using seg_upper_lit [of "i + length u + 1" v s] by simp
  have e: "i + length ?w = i + length u + 1 + length v" by simp
  from b(2) have 4: "i + length u + 1 + length v \<in> set (ms True WordB s (i + length u + 1 + length v))"
    unfolding e .
  have "i + length u + 1 + length v \<in> set (ms True (seqs [WordB, Lit u, Plus isWhiteSpace, Lit v, WordB]) s i)"
    using b(1) 1 2 3 4 unfolding seqs.simps ms_Seq_iff by blast
  then show ?thesis unfolding e .
qed


lemma dropWhile_all_Nil: "(\<forall>x \<in> set (dropWhile P xs). P x) \<longleftrightarrow> dropWhile P xs = []"
proof
  assume a: "\<forall>x \<in> set (dropWhile P xs). P x"
  show "dropWhile P xs = []"
  proof (rule ccontr)
    assume ne: "dropWhile P xs \<noteq> []"
    then have "\<not> P (hd (dropWhile P xs))" by (rule hd_dropWhile)
    moreover from ne have "hd (dropWhile P xs) \<in> set (dropWhile P xs)" by simp
    ultimately show False using a by blast
  qed
next
  assume e: "dropWhile P xs = []"
  show "\<forall>x \<in> set (dropWhile P xs). P x" unfolding e by simp
qed

lemma trim_Nil_iff: "trim s = [] \<longleftrightarrow> (\<forall>c \<in> set s. isWhiteSpace c)"
proof -
  have "trim s = [] \<longleftrightarrow> dropWhile isWhiteSpace (rev (dropWhile isWhiteSpace s)) = []"
    by (simp add: trim_def)
  also have "\<dots> \<longleftrightarrow> (\<forall>x \<in> set (dropWhile isWhiteSpace s). isWhiteSpace x)"
    by (simp add: dropWhile_eq_Nil_conv)
  also have "\<dots> \<longleftrightarrow> dropWhile isWhiteSpace s = []" by (rule dropWhile_all_Nil)
  also have "\<dots> \<longleftrightarrow> (\<forall>c \<in> set s. isWhiteSpace c)" by (simp add: dropWhile_eq_Nil_conv)
  finally show ?thesis .
qed

lemma wordChar_not_space: "isWordChar c \<Longrightarrow> \<not> isWhiteSpace c"
  by (auto simp: isWordChar_def isWhiteSpace_def)

lemma wholeWord_nonblank:
  assumes "wholeWordAt w s i" and "w \<noteq> []" and "isWordChar (hd w)"
  shows "s \<noteq> [] \<and> trim s \<noteq> []"
proof -
  from assms(1) have len: "i + length w \<le> length s"
    and seg: "map upperASCII (take (length w) (drop i s)) = w"
    unfolding wholeWordAt_def by simp_all
  from assms(2) have pos: "0 < length w" by simp
  with len have i: "i < length s" by linarith
  from seg_first [OF assms(2) len seg] assms(3) have "isWordChar (s ! i)"
    using isWordChar_upper [of "s ! i"] by simp
  then have "\<not> isWhiteSpace (s ! i)" by (rule wordChar_not_space)
  moreover from i have "s ! i \<in> set s" by simp
  ultimately have "trim s \<noteq> []" unfolding trim_Nil_iff by blast
  with i show ?thesis by auto
qed

lemma validateSQL_dangerous:
  assumes "s \<noteq> [] \<and> trim s \<noteq> []" and "k < length DANGEROUS_PATTERNS"
    and "DANGEROUS_PATTERNS ! k = (ic, p)" and "i \<le> length s" and "j \<in> set (ms ic p s i)"
  shows "validateSQL toUpperCase s = Inl OnlySelectAllowed \<or> validateSQL toUpperCase s = Inl DangerousOperations"
proof -
  from assms(4,5) have "test ic p s" unfolding test_iff by blast
  moreover from assms(2,3) have "(ic, p) \<in> set DANGEROUS_PATTERNS" by (metis nth_mem)
  ultimately have "\<exists>(ic, pattern) \<in> set DANGEROUS_PATTERNS. test ic pattern s" by blast
  with assms(1) show ?thesis by (simp add: validateSQL_def Let_def)
qed

lemma blocked_plain1:
  assumes "w \<in> set (map js [''INSERT'', ''UPDATE'', ''DELETE'', ''DROP'', ''TRUNCATE'', ''ALTER'',
                             ''CREATE'', ''GRANT'', ''REVOKE''])"
    and "wholeWordAt w s i"
  shows "i + length w \<in> set (ms True (snd (DANGEROUS_PATTERNS ! 0)) s i)"
proof -
  let ?rs = "[Lit (js ''INSERT''), Lit (js ''UPDATE''), Lit (js ''DELETE''), Lit (js ''DROP''),
              Lit (js ''TRUNCATE''), Lit (js ''ALTER''), Lit (js ''CREATE''), Lit (js ''GRANT''),
              Lit (js ''REVOKE'')]"
  from assms(1) have 1: "w \<noteq> []" and 2: "isWordChar (hd w)" and 3: "isWordChar (last w)"
    by (auto simp: js_def isWordChar_def)
  from assms(1) have 4: "Lit w \<in> set ?rs" by auto
  have p: "snd (DANGEROUS_PATTERNS ! 0) = Seq WordB (Seq (alts ?rs) WordB)"
    by (simp add: DANGEROUS_PATTERNS_def)
  show ?thesis unfolding p by (rule wholeWord_plain [OF assms(2) 1 2 3 4])
qed

lemma blocked_plain2:
  assumes "w \<in> set (map js [''EXEC'', ''EXECUTE'', ''EVAL''])"
    and "wholeWordAt w s i"
  shows "i + length w \<in> set (ms True (snd (DANGEROUS_PATTERNS ! 1)) s i)"
proof -
  let ?rs = "[Lit (js ''EXEC''), Lit (js ''EXECUTE''), Lit (js ''EVAL'')]"
  from assms(1) have 1: "w \<noteq> []" and 2: "isWordChar (hd w)" and 3: "isWordChar (last w)"
    by (auto simp: js_def isWordChar_def)
  from assms(1) have 4: "Lit w \<in> set ?rs" by auto
  have p: "snd (DANGEROUS_PATTERNS ! 1) = Seq WordB (Seq (alts ?rs) WordB)"
    by (simp add: DANGEROUS_PATTERNS_def)
  show ?thesis unfolding p by (rule wholeWord_plain [OF assms(2) 1 2 3 4])
qed

lemma blocked_plain5:
  assumes "wholeWordAt (js ''LOAD_FILE'') s i"
  shows "i + length (js ''LOAD_FILE'') \<in> set (ms True (snd (DANGEROUS_PATTERNS ! 4)) s i)"
proof -
  have 1: "js ''LOAD_FILE'' \<noteq> []" and 2: "isWordChar (hd (js ''LOAD_FILE''))"
    and 3: "isWordChar (last (js ''LOAD_FILE''))"
    by (auto simp: js_def isWordChar_def)
  have 4: "Lit (js ''LOAD_FILE'') \<in> set [Lit (js ''LOAD_FILE'')]" by simp
  have p: "snd (DANGEROUS_PATTERNS ! 4) = Seq WordB (Seq (alts [Lit (js ''LOAD_FILE'')]) WordB)"
    by (simp add: DANGEROUS_PATTERNS_def)
  show ?thesis unfolding p by (rule wholeWord_plain [OF assms 1 2 3 4])
qed

lemma blocked_phrase3:
  assumes "wholeWordAt (js ''INTO OUTFILE'') s i"
  shows "i + length (js ''INTO OUTFILE'') \<in> set (ms True (snd (DANGEROUS_PATTERNS ! 2)) s i)"
proof -
  have w: "js ''INTO OUTFILE'' = js ''INTO'' @ [32] @ js ''OUTFILE''" by (simp add: js_def)
  have 1: "js ''INTO'' \<noteq> []" and 2: "js ''OUTFILE'' \<noteq> []" and 3: "isWordChar (hd (js ''INTO''))"
    and 4: "isWordChar (last (js ''OUTFILE''))"
    by (auto simp: js_def isWordChar_def)
  have p: "snd (DANGEROUS_PATTERNS ! 2)
           = seqs [WordB, Lit (js ''INTO''), Plus isWhiteSpace, Lit (js ''OUTFILE''), WordB]"
    by (simp add: DANGEROUS_PATTERNS_def)
  from assms have "wholeWordAt (js ''INTO'' @ [32] @ js ''OUTFILE'') s i" unfolding w .
  from wholeWord_phrase [OF this 1 2 3 4] show ?thesis unfolding p w .
qed

lemma blocked_phrase4:
  assumes "wholeWordAt (js ''INTO DUMPFILE'') s i"
  shows "i + length (js ''INTO DUMPFILE'') \<in> set (ms True (snd (DANGEROUS_PATTERNS ! 3)) s i)"
proof -
  have w: "js ''INTO DUMPFILE'' = js ''INTO'' @ [32] @ js ''DUMPFILE''" by (simp add: js_def)
  have 1: "js ''INTO'' \<noteq> []" and 2: "js ''DUMPFILE'' \<noteq> []" and 3: "isWordChar (hd (js ''INTO''))"
    and 4: "isWordChar (last (js ''DUMPFILE''))"
    by (auto simp: js_def isWordChar_def)
  have p: "snd (DANGEROUS_PATTERNS ! 3)
           = seqs [WordB, Lit (js ''INTO''), Plus isWhiteSpace, Lit (js ''DUMPFILE''), WordB]"
    by (simp add: DANGEROUS_PATTERNS_def)
  from assms have "wholeWordAt (js ''INTO'' @ [32] @ js ''DUMPFILE'') s i" unfolding w .
  from wholeWord_phrase [OF this 1 2 3 4] show ?thesis unfolding p w .
qed

lemma blocked_hit:
  assumes "w \<in> set blockedWords" and "wholeWordAt w s i"
  shows "\<exists>k j. k < length DANGEROUS_PATTERNS \<and> fst (DANGEROUS_PATTERNS ! k) = True
            \<and> j \<in> set (ms True (snd (DANGEROUS_PATTERNS ! k)) s i)"
proof -
  have l: "length DANGEROUS_PATTERNS = 7" by (simp add: DANGEROUS_PATTERNS_def)
  have f: "fst (DANGEROUS_PATTERNS ! 0)" "fst (DANGEROUS_PATTERNS ! 1)" "fst (DANGEROUS_PATTERNS ! 2)"
    "fst (DANGEROUS_PATTERNS ! 3)" "fst (DANGEROUS_PATTERNS ! 4)"
    by (simp_all add: DANGEROUS_PATTERNS_def)
  from assms(1) consider
      (p1) "w \<in> set (map js [''INSERT'', ''UPDATE'', ''DELETE'', ''DROP'', ''TRUNCATE'', ''ALTER'',
                              ''CREATE'', ''GRANT'', ''REVOKE''])"
    | (p2) "w \<in> set (map js [''EXEC'', ''EXECUTE'', ''EVAL''])"
    | (p3) "w = js ''INTO OUTFILE''"
    | (p4) "w = js ''INTO DUMPFILE''"
    | (p5) "w = js ''LOAD_FILE''"
    unfolding blockedWords_def by auto
  then show ?thesis
  proof cases
    case p1
    from blocked_plain1 [OF p1 assms(2)] l f(1) show ?thesis
      by (intro exI [of _ 0] exI [of _ "i + length w"]) simp
  next
    case p2
    from blocked_plain2 [OF p2 assms(2)] l f(2) show ?thesis
      by (intro exI [of _ 1] exI [of _ "i + length w"]) simp
  next
    case p3
    from blocked_phrase3 [of s i] assms(2) l f(3) show ?thesis
      unfolding p3 by (intro exI [of _ 2] exI [of _ "i + length (js ''INTO OUTFILE'')"]) simp
  next
    case p4
    from blocked_phrase4 [of s i] assms(2) l f(4) show ?thesis
      unfolding p4 by (intro exI [of _ 3] exI [of _ "i + length (js ''INTO DUMPFILE'')"]) simp
  next
    case p5
    from blocked_plain5 [of s i] assms(2) l f(5) show ?thesis
      unfolding p5 by (intro exI [of _ 4] exI [of _ "i + length (js ''LOAD_FILE'')"]) simp
  qed
qed

lemma blocked_props: "w \<in> set blockedWords \<Longrightarrow> w \<noteq> [] \<and> isWordChar (hd w)"
  unfolding blockedWords_def by (auto simp: js_def isWordChar_def)

text \<open>
  C2. Every SQL string that contains, as a whole-word case-insensitive match anywhere in
  the text, one of INSERT, UPDATE, DELETE, DROP, TRUNCATE, ALTER, CREATE, GRANT, REVOKE,
  EXEC, EXECUTE, EVAL, INTO OUTFILE, INTO DUMPFILE, LOAD_FILE is rejected by validateSQL
  (it throws), and so executeSQL throws the same error and never reaches the database,
  whatever the database would answer.
\<close>

theorem validateSQL_rejects_blocked_words:
  assumes "w \<in> set blockedWords" and "containsWholeWord w sql"
  shows "\<exists>e. (e = OnlySelectAllowed \<or> e = DangerousOperations)
             \<and> validateSQL toUpperCase sql = Inl e
             \<and> executeSQL toUpperCase numberToString executeWithTimeout environment opts startTime endTime sql
                 = Inl e"
proof -
  from assms(2) obtain i where i: "i \<le> length sql" and ww: "wholeWordAt w sql i"
    unfolding containsWholeWord_def by (auto simp del: upt_Suc simp: less_Suc_eq_le)
  from blocked_props [OF assms(1)] have "w \<noteq> []" "isWordChar (hd w)" by simp_all
  from wholeWord_nonblank [OF ww this] have nb: "sql \<noteq> [] \<and> trim sql \<noteq> []" .
  from blocked_hit [OF assms(1) ww] obtain k j where k: "k < length DANGEROUS_PATTERNS"
    and ic: "fst (DANGEROUS_PATTERNS ! k) = True"
    and j: "j \<in> set (ms True (snd (DANGEROUS_PATTERNS ! k)) sql i)" by blast
  from ic have "DANGEROUS_PATTERNS ! k = (True, snd (DANGEROUS_PATTERNS ! k))"
    by (metis prod.collapse)
  from validateSQL_dangerous [OF nb k this i j]
  have "validateSQL toUpperCase sql = Inl OnlySelectAllowed
        \<or> validateSQL toUpperCase sql = Inl DangerousOperations" .
  then obtain e where e: "e = OnlySelectAllowed \<or> e = DangerousOperations"
    and v: "validateSQL toUpperCase sql = Inl e" by blast
  from v have "executeSQL toUpperCase numberToString executeWithTimeout environment opts startTime endTime sql
                = Inl e"
    by (simp add: executeSQL_def Let_def)
  with e v show ?thesis by blast
qed

theorem validateSQL_rejects_blocked_words_witness:
  "js ''DROP'' \<in> set blockedWords
   \<and> containsWholeWord (js ''DROP'') (js ''SELECT 1 FROM t; drop TABLE t'')
   \<and> (\<exists>e. (e = OnlySelectAllowed \<or> e = DangerousOperations)
         \<and> validateSQL toUpperCaseASCII (js ''SELECT 1 FROM t; drop TABLE t'') = Inl e
         \<and> executeSQL toUpperCaseASCII decimal (\<lambda>q t. Inr [q]) \<lparr>QUERY_TIMEOUT_MS = 0, MAX_RESULT_ROWS = None :: nat option, SCHEMA_CACHE_MAX_SIZE = 0, SCHEMA_CACHE_TTL_MS = 0\<rparr>
              \<lparr>timeout = 0, maxRows = None, explain = False, requestId = []\<rparr> 0 1 (js ''SELECT 1 FROM t; drop TABLE t'') = Inl e)"
proof -
  have h1: "js ''DROP'' \<in> set blockedWords" by code_simp
  have h2: "containsWholeWord (js ''DROP'') (js ''SELECT 1 FROM t; drop TABLE t'')" by code_simp
  note h3 = validateSQL_rejects_blocked_words [OF h1 h2]
  show ?thesis
  proof (intro conjI)
    show "js ''DROP'' \<in> set blockedWords" by (rule h1)
    show "containsWholeWord (js ''DROP'') (js ''SELECT 1 FROM t; drop TABLE t'')" by (rule h2)
    show "\<exists>e. (e = OnlySelectAllowed \<or> e = DangerousOperations)
         \<and> validateSQL toUpperCaseASCII (js ''SELECT 1 FROM t; drop TABLE t'') = Inl e
         \<and> executeSQL toUpperCaseASCII decimal (\<lambda>q t. Inr [q]) \<lparr>QUERY_TIMEOUT_MS = 0, MAX_RESULT_ROWS = None :: nat option, SCHEMA_CACHE_MAX_SIZE = 0, SCHEMA_CACHE_TTL_MS = 0\<rparr>
              \<lparr>timeout = 0, maxRows = None, explain = False, requestId = []\<rparr> 0 1 (js ''SELECT 1 FROM t; drop TABLE t'') = Inl e"
      by (rule h3)
  qed
qed

section \<open>Single statement\<close>

text \<open>
  C5, as stated: every SQL string that splits at the terminator into more than one
  non-empty segment is rejected. The statement \<open>SELECT 1; ;\<close> splits into
  \<open>SELECT 1\<close>, a segment of one space and an empty segment; two of them are not
  empty, and validateSQL accepts the statement, since it counts a segment only when
  something is left after \<open>trim\<close>.
\<close>

theorem batch_with_blank_segment_accepted:
  "length (nonEmptySegments (js ''SELECT 1; ;'')) = 2
   \<and> validateSQL toUpperCaseASCII (js ''SELECT 1; ;'') = Inr True"
  by code_simp

text \<open>
  C5, amended: every SQL string that splits at the terminator into more than one segment
  with something left after trimming is rejected by validateSQL. In particular
  \<open>SELECT * FROM Orders; DROP TABLE Orders;\<close> is rejected (by the read-only rule,
  which comes first).
\<close>

theorem validateSQL_rejects_batches:
  "1 < length (nonBlankSegments sql) \<Longrightarrow> \<exists>e. validateSQL toUpperCase sql = Inl e"
  by (simp add: validateSQL_def nonBlankSegments_def Let_def)

theorem validateSQL_rejects_batches_witness:
  "1 < length (nonBlankSegments (js ''SELECT * FROM Orders; DROP TABLE Orders;''))
   \<and> (\<exists>e. validateSQL toUpperCaseASCII (js ''SELECT * FROM Orders; DROP TABLE Orders;'') = Inl e)
   \<and> validateSQL toUpperCaseASCII (js ''SELECT * FROM Orders; DROP TABLE Orders;'') = Inl DangerousOperations"
proof -
  have h: "1 < length (nonBlankSegments (js ''SELECT * FROM Orders; DROP TABLE Orders;''))"
    by code_simp
  have v: "validateSQL toUpperCaseASCII (js ''SELECT * FROM Orders; DROP TABLE Orders;'') = Inl DangerousOperations"
    by code_simp
  note r = validateSQL_rejects_batches [OF h, of toUpperCaseASCII]
  show ?thesis
  proof (intro conjI)
    show "1 < length (nonBlankSegments (js ''SELECT * FROM Orders; DROP TABLE Orders;''))" by (rule h)
    show "\<exists>e. validateSQL toUpperCaseASCII (js ''SELECT * FROM Orders; DROP TABLE Orders;'') = Inl e"
      by (rule r)
    show "validateSQL toUpperCaseASCII (js ''SELECT * FROM Orders; DROP TABLE Orders;'') = Inl DangerousOperations"
      by (rule v)
  qed
qed

section \<open>Schema enumeration\<close>

text \<open>
  What the pattern of the schema-enumeration defense matches: \<open>UNION\<close>, whitespace,
  \<open>ALL\<close>, whitespace, \<open>SELECT\<close>, then on the same line \<open>FROM\<close>, whitespace and
  \<open>INFORMATION_SCHEMA\<close>. Such a statement is rejected.
\<close>

lemma lit_app:
  assumes "s = p @ x @ r" and "map upperASCII x = w"
  shows "length (p @ x) \<in> set (ms True (Lit w) s (length p))"
proof -
  from assms(2) have lw: "length w = length x" by auto
  have "map upperASCII (take (length w) (drop (length p) s)) = w"
    unfolding lw assms(1) using assms(2) by simp
  moreover have "length p + length w \<le> length s" unfolding lw assms(1) by simp
  ultimately have "length p + length w \<in> set (ms True (Lit w) s (length p))"
    by (rule seg_upper_lit [rotated])
  then show ?thesis unfolding lw by simp
qed

lemma star_app:
  assumes "s = p @ x @ r" and "\<forall>c \<in> set x. P c"
  shows "length (p @ x) \<in> set (ms ic (Star P) s (length p))"
proof -
  from assms(2) have "takeWhile P (x @ r) = x @ takeWhile P r" by (simp add: takeWhile_append2)
  then have "length x \<le> length (takeWhile P (drop (length p) s))" unfolding assms(1) by simp
  then show ?thesis unfolding ms_Star_iff by simp
qed

lemma plus_app:
  assumes "s = p @ x @ r" and "x \<noteq> []" and "\<forall>c \<in> set x. P c"
  shows "length (p @ x) \<in> set (ms ic (Plus P) s (length p))"
proof -
  from assms(3) have "takeWhile P (x @ r) = x @ takeWhile P r" by (simp add: takeWhile_append2)
  then have "length x \<le> length (takeWhile P (drop (length p) s))" unfolding assms(1) by simp
  moreover from assms(2) have "0 < length x" by simp
  ultimately show ?thesis unfolding ms_Plus_iff by simp
qed

lemma union_select_match:
  assumes s: "s = pre @ u @ w1 @ a @ w2 @ sel @ mid @ f @ w3 @ sch @ post"
    and lits: "map upperASCII u = U" "map upperASCII a = A" "map upperASCII sel = S"
      "map upperASCII f = F" "map upperASCII sch = I"
    and sp: "w1 \<noteq> []" "\<forall>c \<in> set w1. P c" "w2 \<noteq> []" "\<forall>c \<in> set w2. P c" "w3 \<noteq> []" "\<forall>c \<in> set w3. P c"
    and mid: "\<forall>c \<in> set mid. Q c"
  shows "\<exists>j. j \<in> set (ms True (seqs [Lit U, Plus P, Lit A, Plus P, Lit S, Star Q, Lit F, Plus P, Lit I])
                       s (length pre))"
proof -
  let ?p1 = "pre @ u" let ?p2 = "?p1 @ w1" let ?p3 = "?p2 @ a" let ?p4 = "?p3 @ w2"
  let ?p5 = "?p4 @ sel" let ?p6 = "?p5 @ mid" let ?p7 = "?p6 @ f" let ?p8 = "?p7 @ w3"
  let ?p9 = "?p8 @ sch"
  have 1: "length ?p1 \<in> set (ms True (Lit U) s (length pre))"
    by (rule lit_app [OF _ lits(1)]) (simp add: s)
  have 2: "length ?p2 \<in> set (ms True (Plus P) s (length ?p1))"
    by (rule plus_app [OF _ sp(1,2)]) (simp add: s)
  have 3: "length ?p3 \<in> set (ms True (Lit A) s (length ?p2))"
    by (rule lit_app [OF _ lits(2)]) (simp add: s)
  have 4: "length ?p4 \<in> set (ms True (Plus P) s (length ?p3))"
    by (rule plus_app [OF _ sp(3,4)]) (simp add: s)
  have 5: "length ?p5 \<in> set (ms True (Lit S) s (length ?p4))"
    by (rule lit_app [OF _ lits(3)]) (simp add: s)
  have 6: "length ?p6 \<in> set (ms True (Star Q) s (length ?p5))"
    by (rule star_app [OF _ mid]) (simp add: s)
  have 7: "length ?p7 \<in> set (ms True (Lit F) s (length ?p6))"
    by (rule lit_app [OF _ lits(4)]) (simp add: s)
  have 8: "length ?p8 \<in> set (ms True (Plus P) s (length ?p7))"
    by (rule plus_app [OF _ sp(5,6)]) (simp add: s)
  have 9: "length ?p9 \<in> set (ms True (Lit I) s (length ?p8))"
    by (rule lit_app [OF _ lits(5)]) (simp add: s)
  have "length ?p9 \<in> set (ms True (seqs [Lit U, Plus P, Lit A, Plus P, Lit S, Star Q, Lit F, Plus P, Lit I])
                       s (length pre))"
    unfolding seqs.simps ms_Seq_iff using 1 2 3 4 5 6 7 8 9 by blast
  then show ?thesis ..
qed

lemma union_then_schema_rejected:
  assumes "map upperASCII u = js ''UNION''" and "map upperASCII a = js ''ALL''"
    and "map upperASCII sel = js ''SELECT''" and "map upperASCII f = js ''FROM''"
    and "map upperASCII sch = js ''INFORMATION_SCHEMA''"
    and "w1 \<noteq> []" and "\<forall>c \<in> set w1. isWhiteSpace c"
    and "w2 \<noteq> []" and "\<forall>c \<in> set w2. isWhiteSpace c"
    and "w3 \<noteq> []" and "\<forall>c \<in> set w3. isWhiteSpace c"
    and "\<forall>c \<in> set mid. \<not> isLineTerminator c"
  shows "\<exists>e. validateSQL toUpperCase (pre @ u @ w1 @ a @ w2 @ sel @ mid @ f @ w3 @ sch @ post) = Inl e"
proof -
  let ?s = "pre @ u @ w1 @ a @ w2 @ sel @ mid @ f @ w3 @ sch @ post"
  from assms(12) have m: "\<forall>c \<in> set mid. notLineTerminator c" by (simp add: notLineTerminator_def)
  from union_select_match [OF refl assms(1-5) assms(6-11) m, of pre post]
  obtain j where j: "j \<in> set (ms True (seqs [Lit (js ''UNION''), Plus isWhiteSpace, Lit (js ''ALL''),
      Plus isWhiteSpace, Lit (js ''SELECT''), Star notLineTerminator, Lit (js ''FROM''),
      Plus isWhiteSpace, Lit (js ''INFORMATION_SCHEMA'')]) ?s (length pre))" ..
  have "length pre \<le> length ?s" by simp
  with j have t: "test True (seqs [Lit (js ''UNION''), Plus isWhiteSpace, Lit (js ''ALL''),
      Plus isWhiteSpace, Lit (js ''SELECT''), Star notLineTerminator, Lit (js ''FROM''),
      Plus isWhiteSpace, Lit (js ''INFORMATION_SCHEMA'')]) ?s" unfolding test_iff by (intro exI conjI)
  have "(True, seqs [Lit (js ''UNION''), Plus isWhiteSpace, Lit (js ''ALL''),
      Plus isWhiteSpace, Lit (js ''SELECT''), Star notLineTerminator, Lit (js ''FROM''),
      Plus isWhiteSpace, Lit (js ''INFORMATION_SCHEMA'')]) \<in> set DANGEROUS_PATTERNS"
    unfolding DANGEROUS_PATTERNS_def by (simp del: seqs.simps)
  with t have "\<exists>(ic, pattern) \<in> set DANGEROUS_PATTERNS. test ic pattern ?s"
    by (intro bexI [where x = "(True, seqs [Lit (js ''UNION''), Plus isWhiteSpace, Lit (js ''ALL''),
      Plus isWhiteSpace, Lit (js ''SELECT''), Star notLineTerminator, Lit (js ''FROM''),
      Plus isWhiteSpace, Lit (js ''INFORMATION_SCHEMA'')])"]) simp_all
  then show ?thesis unfolding validateSQL_def Let_def by (simp del: seqs.simps)
qed

text \<open>
  C6. The claim: every statement that combines \<open>UNION ALL SELECT\<close> with a reference to
  the information schema is rejected. On the code, the dot of the pattern does not match
  a line terminator (the pattern has no flag \<open>s\<close>): the statement
  \<open>SELECT name FROM users UNION ALL SELECT table_name FROM INFORMATION_SCHEMA.TABLES\<close> is
  rejected when it is written on one line and accepted when a line break stands in front
  of \<open>FROM INFORMATION_SCHEMA\<close>. A statement with the reference in front of
  \<open>UNION ALL SELECT\<close> is accepted too, and so is one that reads \<open>sqlite_master\<close>, the
  catalog of the SQLite database.
\<close>

theorem schema_enumeration_on_two_lines_accepted:
  "containsText (js ''UNION ALL SELECT'')
     (js ''SELECT name FROM users UNION ALL SELECT table_name'' @ [10] @ js ''FROM INFORMATION_SCHEMA.TABLES'')
   \<and> containsText (js ''INFORMATION_SCHEMA'')
     (js ''SELECT name FROM users UNION ALL SELECT table_name'' @ [10] @ js ''FROM INFORMATION_SCHEMA.TABLES'')
   \<and> validateSQL toUpperCaseASCII
     (js ''SELECT name FROM users UNION ALL SELECT table_name'' @ [10] @ js ''FROM INFORMATION_SCHEMA.TABLES'')
     = Inr True
   \<and> validateSQL toUpperCaseASCII
     (js ''SELECT name FROM users UNION ALL SELECT table_name FROM INFORMATION_SCHEMA.TABLES'')
     = Inl DangerousOperations
   \<and> containsText (js ''UNION ALL SELECT'')
     (js ''SELECT table_name FROM INFORMATION_SCHEMA.TABLES UNION ALL SELECT name FROM t'')
   \<and> containsText (js ''INFORMATION_SCHEMA'')
     (js ''SELECT table_name FROM INFORMATION_SCHEMA.TABLES UNION ALL SELECT name FROM t'')
   \<and> validateSQL toUpperCaseASCII
     (js ''SELECT table_name FROM INFORMATION_SCHEMA.TABLES UNION ALL SELECT name FROM t'') = Inr True
   \<and> containsText (js ''UNION ALL SELECT'') (js ''SELECT name FROM t UNION ALL SELECT sql FROM sqlite_master'')
   \<and> containsText (js ''SQLITE_MASTER'') (js ''SELECT name FROM t UNION ALL SELECT sql FROM sqlite_master'')
   \<and> validateSQL toUpperCaseASCII (js ''SELECT name FROM t UNION ALL SELECT sql FROM sqlite_master'')
     = Inr True"
proof -
  let ?two = "js ''SELECT name FROM users UNION ALL SELECT table_name'' @ [10] @ js ''FROM INFORMATION_SCHEMA.TABLES''"
  let ?one = "js ''SELECT name FROM users UNION ALL SELECT table_name FROM INFORMATION_SCHEMA.TABLES''"
  let ?rev = "js ''SELECT table_name FROM INFORMATION_SCHEMA.TABLES UNION ALL SELECT name FROM t''"
  have 1: "containsText (js ''UNION ALL SELECT'') ?two" by code_simp
  have 2: "containsText (js ''INFORMATION_SCHEMA'') ?two" by code_simp
  have 3: "validateSQL toUpperCaseASCII ?two = Inr True" by code_simp
  have 4: "validateSQL toUpperCaseASCII ?one = Inl DangerousOperations" by code_simp
  have 5: "containsText (js ''UNION ALL SELECT'') ?rev" by code_simp
  have 6: "containsText (js ''INFORMATION_SCHEMA'') ?rev" by code_simp
  have 7: "validateSQL toUpperCaseASCII ?rev = Inr True" by code_simp
  have 8: "containsText (js ''UNION ALL SELECT'') (js ''SELECT name FROM t UNION ALL SELECT sql FROM sqlite_master'')"
    by code_simp
  have 9: "containsText (js ''SQLITE_MASTER'') (js ''SELECT name FROM t UNION ALL SELECT sql FROM sqlite_master'')"
    by code_simp
  have 10: "validateSQL toUpperCaseASCII (js ''SELECT name FROM t UNION ALL SELECT sql FROM sqlite_master'')
     = Inr True"
    by code_simp
  show ?thesis
    by (intro conjI) (rule 1 2 3 4 5 6 7 8 9 10)+
qed

section \<open>The row limit\<close>

lemma find_upt_first:
  assumes "k \<le> i" and "i < n" and "P i" and "\<forall>i'. k \<le> i' \<and> i' < i \<longrightarrow> \<not> P i'"
  shows "find P [k ..< n] = Some i"
proof -
  from assms(1,2) have len: "i - k < length [k ..< n]" by simp
  from assms(1,2) have el: "[k ..< n] ! (i - k) = i" by simp
  have before: "\<forall>j < i - k. \<not> P ([k ..< n] ! j)"
  proof (intro allI impI)
    fix j assume j: "j < i - k"
    with assms(2) have "[k ..< n] ! j = k + j" by simp
    moreover from j have "k \<le> k + j \<and> k + j < i" by linarith
    ultimately show "\<not> P ([k ..< n] ! j)" using assms(4) by simp
  qed
  show ?thesis unfolding find_Some_iff
  proof (intro exI [of _ "i - k"] conjI)
    show "i - k < length [k ..< n]" by (rule len)
    show "P ([k ..< n] ! (i - k))" unfolding el by (rule assms(3))
    show "i = [k ..< n] ! (i - k)" unfolding el ..
    show "\<forall>j < i - k. \<not> P ([k ..< n] ! j)" by (rule before)
  qed
qed

lemma exec_SomeI:
  assumes "k \<le> i" and "i \<le> length s" and "ms ic r s i \<noteq> []"
    and "\<forall>i'. k \<le> i' \<and> i' < i \<longrightarrow> ms ic r s i' = []"
  shows "exec ic r s k = Some (i, hd (ms ic r s i))"
proof -
  from assms(2) have "i < Suc (length s)" by simp
  from find_upt_first [of k i "Suc (length s)" "\<lambda>i. ms ic r s i \<noteq> []", OF assms(1) this assms(3)] assms(4)
  have "find (\<lambda>i. ms ic r s i \<noteq> []) [k ..< Suc (length s)] = Some i" by simp
  then show ?thesis unfolding exec_def by simp
qed

lemma star_to_end:
  assumes "length s \<in> set (ms ic (Star P) s m)" and "m \<le> length s"
  shows "\<forall>c \<in> set (drop m s). P c"
proof -
  from assms have "length (drop m s) \<le> length (takeWhile P (drop m s))"
    unfolding ms_Star_iff by simp
  then show ?thesis by (rule takeWhile_all)
qed

lemma star_to_end_I:
  assumes "\<forall>c \<in> set (drop m s). P c" and "m \<le> length s"
  shows "length s \<in> set (ms ic (Star P) s m)"
proof -
  from assms(1) have "takeWhile P (drop m s) = drop m s" by simp
  then have "length (takeWhile P (drop m s)) = length s - m" by (metis length_drop)
  with assms(2) show ?thesis unfolding ms_Star_iff by linarith
qed

lemma tail_pattern_end:
  "j \<in> set (ms ic (Seq (Opt (Lit [59])) (Seq (Star P) Eol)) s i) \<Longrightarrow> j = length s"
  unfolding ms_Seq_iff ms_Eol_iff by blast

lemma tail_pattern_iff:
  assumes "i \<le> length s"
  shows "ms False (Seq (Opt (Lit [59])) (Seq (Star P) Eol)) s i \<noteq> [] \<longleftrightarrow>
           (\<forall>c \<in> set (drop i s). P c) \<or> (i < length s \<and> s ! i = 59 \<and> (\<forall>c \<in> set (drop (Suc i) s). P c))"
proof
  assume "ms False (Seq (Opt (Lit [59])) (Seq (Star P) Eol)) s i \<noteq> []"
  then obtain j where "j \<in> set (ms False (Seq (Opt (Lit [59])) (Seq (Star P) Eol)) s i)"
    by (meson all_not_in_conv set_empty)
  then obtain m where m: "m \<in> set (ms False (Lit [59]) s i) \<or> m = i"
    and e: "length s \<in> set (ms False (Star P) s m)"
    unfolding ms_Seq_iff ms_Eol_iff ms_Opt_iff by blast
  from m show "(\<forall>c \<in> set (drop i s). P c) \<or> (i < length s \<and> s ! i = 59 \<and> (\<forall>c \<in> set (drop (Suc i) s). P c))"
  proof
    assume l: "m \<in> set (ms False (Lit [59]) s i)"
    then have mi: "m = Suc i" and il: "i < length s" unfolding ms_Lit_iff by simp_all
    from lit_match_first [OF _ l] have "s ! i = 59" by (simp add: canon_def)
    moreover from star_to_end [OF e] mi il have "\<forall>c \<in> set (drop (Suc i) s). P c" by simp
    ultimately show ?thesis using il by simp
  next
    assume "m = i"
    with star_to_end [OF e] assms show ?thesis by simp
  qed
next
  assume a: "(\<forall>c \<in> set (drop i s). P c) \<or> (i < length s \<and> s ! i = 59 \<and> (\<forall>c \<in> set (drop (Suc i) s). P c))"
  have "length s \<in> set (ms False (Seq (Opt (Lit [59])) (Seq (Star P) Eol)) s i)"
    using a
  proof
    assume "\<forall>c \<in> set (drop i s). P c"
    from star_to_end_I [OF this assms] show ?thesis
      unfolding ms_Seq_iff ms_Eol_iff ms_Opt_iff by blast
  next
    assume b: "i < length s \<and> s ! i = 59 \<and> (\<forall>c \<in> set (drop (Suc i) s). P c)"
    then have "take (Suc 0) (drop i s) = [59]"
      by (metis Cons_nth_drop_Suc take0 take_Suc_Cons)
    with b have "Suc i \<in> set (ms False (Lit [59]) s i)" unfolding ms_Lit_iff by simp
    moreover from b have "length s \<in> set (ms False (Star P) s (Suc i))"
      by (intro star_to_end_I) simp_all
    ultimately show ?thesis unfolding ms_Seq_iff ms_Eol_iff ms_Opt_iff by blast
  qed
  then show "ms False (Seq (Opt (Lit [59])) (Seq (Star P) Eol)) s i \<noteq> []" by auto
qed


lemma append_limit:
  assumes sp: "\<forall>c \<in> set sp. isWhiteSpace c"
    and tm: "tm = [] \<or> tm = [59]"
    and body: "tm = [] \<longrightarrow> body = [] \<or> (\<not> isWhiteSpace (last body) \<and> last body \<noteq> 59)"
  shows "replace False (seqs [Opt (Lit (js '';'')), Star isWhiteSpace, Eol]) rep (body @ tm @ sp)
         = body @ rep"
proof -
  let ?s = "body @ tm @ sp"
  let ?r = "Seq (Opt (Lit [59])) (Seq (Star isWhiteSpace) Eol)"
  have r: "seqs [Opt (Lit (js '';'')), Star isWhiteSpace, Eol] = ?r" by (simp add: js_def)
  have ns: "\<not> isWhiteSpace 59" by (simp add: isWhiteSpace_def)
  have le: "length body \<le> length ?s" by simp
  have here: "ms False ?r ?s (length body) \<noteq> []"
  proof (cases "tm = []")
    case True
    with sp have "\<forall>c \<in> set (drop (length body) ?s). isWhiteSpace c" by simp
    then show ?thesis unfolding tail_pattern_iff [OF le] by blast
  next
    case False
    with tm have t: "tm = [59]" by simp
    with sp have "length body < length ?s \<and> ?s ! length body = 59
        \<and> (\<forall>c \<in> set (drop (Suc (length body)) ?s). isWhiteSpace c)" by (simp add: nth_append)
    then show ?thesis unfolding tail_pattern_iff [OF le] by blast
  qed
  have before: "ms False ?r ?s i = []" if i: "i < length body" for i
  proof (rule ccontr)
    assume ne: "ms False ?r ?s i \<noteq> []"
    from i have il: "i \<le> length ?s" by simp
    have d: "drop i ?s = drop i body @ tm @ sp" using i by simp
    have d': "drop (Suc i) ?s = drop (Suc i) body @ tm @ sp" using i by simp
    from i have bne: "body \<noteq> []" by auto
    from ne [unfolded tail_pattern_iff [OF il]]
    show False
    proof
      assume a: "\<forall>c \<in> set (drop i ?s). isWhiteSpace c"
      show False
      proof (cases "tm = []")
        case True
        from i have "drop i body \<noteq> []" by simp
        then have "last (drop i body) \<in> set (drop i body)" by (rule last_in_set)
        with i have "last body \<in> set (drop i body)" by simp
        with a d have "isWhiteSpace (last body)" by simp
        with body True bne show False by simp
      next
        case False
        with tm have "tm = [59]" by simp
        with a d have "isWhiteSpace 59" by simp
        with ns show False by simp
      qed
    next
      assume a: "i < length ?s \<and> ?s ! i = 59 \<and> (\<forall>c \<in> set (drop (Suc i) ?s). isWhiteSpace c)"
      show False
      proof (cases "tm = []")
        case True
        show False
        proof (cases "Suc i < length body")
          case True
          then have "drop (Suc i) body \<noteq> []" by simp
          then have "last (drop (Suc i) body) \<in> set (drop (Suc i) body)" by (rule last_in_set)
          with True have "last body \<in> set (drop (Suc i) body)" by simp
          with a d' have "isWhiteSpace (last body)" by simp
          with body \<open>tm = []\<close> bne show False by simp
        next
          case False
          with i have "i = length body - 1" by linarith
          then have "last body = body ! i" using bne by (simp add: last_conv_nth)
          moreover from a i have "body ! i = 59" by (simp add: nth_append)
          ultimately have "last body = 59" by simp
          with body \<open>tm = []\<close> bne show False by simp
        qed
      next
        case False
        with tm have "tm = [59]" by simp
        with a d' have "isWhiteSpace 59" by simp
        with ns show False by simp
      qed
    qed
  qed
  then have bf: "\<forall>i'. 0 \<le> i' \<and> i' < length body \<longrightarrow> ms False ?r ?s i' = []" by simp
  from here have "hd (ms False ?r ?s (length body)) \<in> set (ms False ?r ?s (length body))" by simp
  then have "hd (ms False ?r ?s (length body)) = length ?s" by (rule tail_pattern_end)
  with exec_SomeI [OF _ le here bf]
  have "exec False ?r ?s 0 = Some (length body, length ?s)" by simp
  then show ?thesis unfolding r replace_def by simp
qed


lemma withoutTerminator_split:
  "\<exists>tm sp. s = withoutTerminator s @ tm @ sp \<and> (\<forall>c \<in> set sp. isWhiteSpace c) \<and> (tm = [] \<or> tm = [59])
     \<and> (tm = [] \<longrightarrow> withoutTerminator s = []
           \<or> (\<not> isWhiteSpace (last (withoutTerminator s)) \<and> last (withoutTerminator s) \<noteq> 59))"
proof -
  let ?t = "rev (dropWhile isWhiteSpace (rev s))"
  let ?sp = "rev (takeWhile isWhiteSpace (rev s))"
  have "?t @ ?sp = rev (takeWhile isWhiteSpace (rev s) @ dropWhile isWhiteSpace (rev s))"
    by (simp only: rev_append)
  also have "\<dots> = s" by simp
  finally have s: "s = ?t @ ?sp" by (rule sym)
  have sp: "\<forall>c \<in> set ?sp. isWhiteSpace c" by (auto dest: set_takeWhileD)
  have lt: "\<not> isWhiteSpace (last ?t)" if "?t \<noteq> []"
  proof -
    from that have ne: "dropWhile isWhiteSpace (rev s) \<noteq> []" by simp
    then have "\<not> isWhiteSpace (hd (dropWhile isWhiteSpace (rev s)))" by (rule hd_dropWhile)
    with ne show ?thesis by (simp add: last_rev)
  qed
  show ?thesis
  proof (cases "?t \<noteq> [] \<and> last ?t = 59")
    case True
    then have w: "withoutTerminator s = butlast ?t" by (simp add: withoutTerminator_def Let_def)
    from True have "?t = butlast ?t @ [59]" by (metis append_butlast_last_id)
    with s have "s = butlast ?t @ [59] @ ?sp" by (metis append_assoc)
    with sp show ?thesis unfolding w by blast
  next
    case False
    then have w: "withoutTerminator s = ?t" by (auto simp: withoutTerminator_def Let_def)
    from False lt have "?t = [] \<or> (\<not> isWhiteSpace (last ?t) \<and> last ?t \<noteq> 59)" by blast
    moreover from s have "s = ?t @ [] @ ?sp" by simp
    ultimately show ?thesis using sp unfolding w by blast
  qed
qed

lemma replace_tail:
  "replace False (seqs [Opt (Lit (js '';'')), Star isWhiteSpace, Eol]) rep s = withoutTerminator s @ rep"
proof -
  from withoutTerminator_split [of s] obtain tm sp where s: "s = withoutTerminator s @ tm @ sp"
    and sp: "\<forall>c \<in> set sp. isWhiteSpace c" and tm: "tm = [] \<or> tm = [59]"
    and b: "tm = [] \<longrightarrow> withoutTerminator s = []
           \<or> (\<not> isWhiteSpace (last (withoutTerminator s)) \<and> last (withoutTerminator s) \<noteq> 59)"
    by blast
  from append_limit [OF sp tm b, of rep] s show ?thesis by simp
qed

lemma decimal_Nil: "decimal n \<noteq> []"
  by (subst decimal.simps) simp

lemma limit_differs: "withoutTerminator s @ js '' LIMIT '' @ d @ js '';'' \<noteq> s"
proof
  assume e: "withoutTerminator s @ js '' LIMIT '' @ d @ js '';'' = s"
  from withoutTerminator_split [of s] obtain tm sp where s: "s = withoutTerminator s @ tm @ sp"
    and sp: "\<forall>c \<in> set sp. isWhiteSpace c" and tm: "tm = [] \<or> tm = [59]"
    by blast
  from e s have "withoutTerminator s @ js '' LIMIT '' @ d @ js '';'' = withoutTerminator s @ tm @ sp"
    by simp
  then have "js '' LIMIT '' @ d @ js '';'' = tm @ sp" by simp
  moreover have "76 \<in> set (js '' LIMIT '' @ d @ js '';'')" by (simp add: js_def)
  ultimately have "76 \<in> set (tm @ sp)" by simp
  with tm sp have "isWhiteSpace 76" by auto
  then show False by (simp add: isWhiteSpace_def)
qed

lemma digit_not_space: "isDigit c \<Longrightarrow> \<not> isWhiteSpace c"
  by (auto simp add: isDigit_def isWhiteSpace_def)

lemma takeWhile_hd_nth:
  assumes "takeWhile P (drop m s) \<noteq> []"
  shows "m < length s \<and> P (s ! m)"
proof -
  from assms have ne: "drop m s \<noteq> []" by auto
  then have m: "m < length s" by simp
  then have d: "drop m s = s ! m # drop (Suc m) s" by (simp add: Cons_nth_drop_Suc)
  from assms show ?thesis unfolding d using m by (simp split: if_splits)
qed

lemma takeWhile_run_nth:
  assumes "k \<le> m" and "m < k + length (takeWhile P (drop k s))"
  shows "P (s ! m)"
proof -
  let ?tw = "takeWhile P (drop k s)"
  from assms have a: "m - k < length ?tw" by linarith
  then have "?tw ! (m - k) \<in> set ?tw" by (rule nth_mem)
  then have p: "P (?tw ! (m - k))" by (rule set_takeWhileD [THEN conjunct2])
  from a have "?tw ! (m - k) = drop k s ! (m - k)" by (rule takeWhile_nth)
  moreover have "length ?tw \<le> length (drop k s)" by (rule length_takeWhile_le)
  with a have "m - k < length (drop k s)" by linarith
  then have "drop k s ! (m - k) = s ! (k + (m - k))" by simp
  ultimately show ?thesis using p assms(1) by simp
qed

lemma word_number_at:
  assumes wn: "w \<noteq> []" and wu: "map upperASCII w = w" and wh: "isWordChar (hd w)"
  shows "(\<exists>j. j \<in> set (ms True (Seq WordB (Seq (Lit w) (Seq (Plus isWhiteSpace) (Plus isDigit)))) s i))
   \<longleftrightarrow> i + length w \<le> length s \<and> map upperASCII (take (length w) (drop i s)) = w \<and>
       (i = 0 \<or> \<not> isWordChar (s ! (i - 1))) \<and>
       takeWhile isWhiteSpace (drop (i + length w) s) \<noteq> [] \<and>
       (case dropWhile isWhiteSpace (drop (i + length w) s) of [] \<Rightarrow> False | c # rest \<Rightarrow> isDigit c)"
    (is "?L \<longleftrightarrow> ?R")
proof
  let ?n = "i + length w"
  let ?tw = "takeWhile isWhiteSpace (drop ?n s)"
  assume ?L
  then obtain j where "j \<in> set (ms True (Seq WordB (Seq (Lit w) (Seq (Plus isWhiteSpace) (Plus isDigit)))) s i)" ..
  then obtain m1 where m1: "m1 \<in> set (ms True WordB s i)"
    and r1: "j \<in> set (ms True (Seq (Lit w) (Seq (Plus isWhiteSpace) (Plus isDigit))) s m1)"
    unfolding ms_Seq_iff [of j True WordB] by (elim exE conjE)
  from r1 obtain m2 where m2: "m2 \<in> set (ms True (Lit w) s m1)"
    and r2: "j \<in> set (ms True (Seq (Plus isWhiteSpace) (Plus isDigit)) s m2)"
    unfolding ms_Seq_iff [of j True "Lit w"] by (elim exE conjE)
  from r2 obtain m3 where m3: "m3 \<in> set (ms True (Plus isWhiteSpace) s m2)"
    and r3: "j \<in> set (ms True (Plus isDigit) s m3)"
    unfolding ms_Seq_iff [of j True "Plus isWhiteSpace"] by (elim exE conjE)
  from m1 have e1: "m1 = i"
    and b: "(0 < i \<and> i \<le> length s \<and> isWordChar (s ! (i - 1))) \<noteq> (i < length s \<and> isWordChar (s ! i))"
    unfolding ms_WordB_iff by simp_all
  from m2 have e2: "m2 = ?n" and len: "?n \<le> length s"
    and seg: "map upperASCII (take (length w) (drop i s)) = w"
    unfolding ms_Lit_iff e1 canon_True wu by simp_all
  from m3 have w1: "?n < m3" and w2: "m3 \<le> ?n + length ?tw"
    unfolding ms_Plus_iff e2 by simp_all
  from r3 have d: "m3 < j" "j \<le> m3 + length (takeWhile isDigit (drop m3 s))"
    unfolding ms_Plus_iff by simp_all
  from d have "takeWhile isDigit (drop m3 s) \<noteq> []" by auto
  from takeWhile_hd_nth [OF this] have ml: "m3 < length s" and dg: "isDigit (s ! m3)" by simp_all
  have "\<not> m3 < ?n + length ?tw"
  proof
    assume "m3 < ?n + length ?tw"
    with w1 have "isWhiteSpace (s ! m3)" using takeWhile_run_nth [of ?n m3 isWhiteSpace s] by simp
    with dg show False using digit_not_space by blast
  qed
  with w2 have e: "m3 = ?n + length ?tw" by linarith
  with w1 have ne: "?tw \<noteq> []" by auto
  have "dropWhile isWhiteSpace (drop ?n s) = drop (length ?tw) (drop ?n s)"
    by (rule dropWhile_eq_drop)
  also have "\<dots> = drop m3 s" unfolding e by (simp add: add.commute)
  also have "\<dots> = s ! m3 # drop (Suc m3) s" using ml by (simp add: Cons_nth_drop_Suc)
  finally have dw: "dropWhile isWhiteSpace (drop ?n s) = s ! m3 # drop (Suc m3) s" .
  from seg_first [OF wn len seg] have "upperASCII (s ! i) = hd w" .
  with wh have "isWordChar (upperASCII (s ! i))" by simp
  then have wc: "isWordChar (s ! i)" unfolding isWordChar_upper .
  from wn have "0 < length w" by simp
  with len have "i < length s" by linarith
  with b wc have left: "i = 0 \<or> \<not> isWordChar (s ! (i - 1))" by auto
  have c: "(case dropWhile isWhiteSpace (drop ?n s) of [] \<Rightarrow> False | c # rest \<Rightarrow> isDigit c)"
    unfolding dw using dg by simp
  show ?R by (intro conjI) (rule len seg left ne c)+
next
  let ?n = "i + length w"
  let ?tw = "takeWhile isWhiteSpace (drop ?n s)"
  let ?m3 = "?n + length ?tw"
  assume a: ?R
  then have len: "?n \<le> length s"
    and seg: "map upperASCII (take (length w) (drop i s)) = w"
    and left: "i = 0 \<or> \<not> isWordChar (s ! (i - 1))"
    and ne: "?tw \<noteq> []"
    and dg: "(case dropWhile isWhiteSpace (drop ?n s) of [] \<Rightarrow> False | c # rest \<Rightarrow> isDigit c)"
    by blast+
  from dg obtain c rest where dw: "dropWhile isWhiteSpace (drop ?n s) = c # rest" and c: "isDigit c"
    by (cases "dropWhile isWhiteSpace (drop ?n s)") simp_all
  have "dropWhile isWhiteSpace (drop ?n s) = drop (length ?tw) (drop ?n s)"
    by (rule dropWhile_eq_drop)
  also have "\<dots> = drop ?m3 s" by (simp add: add.commute)
  finally have dm: "drop ?m3 s = c # rest" using dw by simp
  from seg_first [OF wn len seg] have "upperASCII (s ! i) = hd w" .
  with wh have "isWordChar (upperASCII (s ! i))" by simp
  then have wc: "isWordChar (s ! i)" unfolding isWordChar_upper .
  from wn have "0 < length w" by simp
  with len have il: "i < length s" by linarith
  have 1: "i \<in> set (ms True WordB s i)" by (rule wordB_before [OF il wc left])
  have 2: "?n \<in> set (ms True (Lit w) s i)" by (rule seg_upper_lit [OF len seg])
  from ne have "0 < length ?tw" by simp
  then have 3: "?m3 \<in> set (ms True (Plus isWhiteSpace) s ?n)"
    unfolding ms_Plus_iff by simp
  have "1 \<le> length (takeWhile isDigit (drop ?m3 s))" unfolding dm using c by simp
  then have 4: "Suc ?m3 \<in> set (ms True (Plus isDigit) s ?m3)"
    unfolding ms_Plus_iff by simp
  have "Suc ?m3 \<in> set (ms True (Seq WordB (Seq (Lit w) (Seq (Plus isWhiteSpace) (Plus isDigit)))) s i)"
    unfolding ms_Seq_iff using 1 2 3 4 by blast
  then show ?L ..
qed

lemma ex_conj_pull: "(\<exists>i j. P i \<and> Q i j) \<longleftrightarrow> (\<exists>i. P i \<and> (\<exists>j. Q i j))"
  by blast

lemma limit_word: "js ''LIMIT'' \<noteq> [] \<and> map upperASCII (js ''LIMIT'') = js ''LIMIT''
   \<and> isWordChar (hd (js ''LIMIT'')) \<and> length (js ''LIMIT'') = 5"
  by (simp add: js_def upperASCII_def isWordChar_def)

lemma limit_pattern_at:
  "(\<exists>j. j \<in> set (ms True (seqs [WordB, Lit (js ''LIMIT''), Plus isWhiteSpace, Plus isDigit]) s i))
   \<longleftrightarrow> limitNumberAt s i"
proof -
  from limit_word have l: "length (js ''LIMIT'') = 5" by (rule conjunct2 [THEN conjunct2, THEN conjunct2])
  from limit_word have 1: "js ''LIMIT'' \<noteq> []" by (rule conjunct1)
  from limit_word have 2: "map upperASCII (js ''LIMIT'') = js ''LIMIT''" by (rule conjunct2 [THEN conjunct1])
  from limit_word have 3: "isWordChar (hd (js ''LIMIT''))" by (rule conjunct2 [THEN conjunct2, THEN conjunct1])
  show ?thesis
    unfolding seqs.simps limitNumberAt_def word_number_at [OF 1 2 3] l ..
qed

lemma limit_pattern_iff:
  "test True (seqs [WordB, Lit (js ''LIMIT''), Plus isWhiteSpace, Plus isDigit]) s \<longleftrightarrow> mentionsLimitNumber s"
proof -
  have "test True (seqs [WordB, Lit (js ''LIMIT''), Plus isWhiteSpace, Plus isDigit]) s
        \<longleftrightarrow> (\<exists>i. i \<le> length s \<and> (\<exists>j. j \<in> set (ms True (seqs [WordB, Lit (js ''LIMIT''), Plus isWhiteSpace, Plus isDigit]) s i)))"
    unfolding test_iff by (rule ex_conj_pull)
  also have "\<dots> \<longleftrightarrow> (\<exists>i. i \<le> length s \<and> limitNumberAt s i)"
    unfolding limit_pattern_at ..
  also have "\<dots> \<longleftrightarrow> (\<exists>i \<in> set [0 ..< Suc (length s)]. limitNumberAt s i)"
    unfolding set_upt Bex_def atLeastLessThan_iff less_Suc_eq_le by simp
  finally show ?thesis unfolding mentionsLimitNumber_def .
qed


lemma appended_before:
  "59 \<notin> set b \<Longrightarrow> appendedBeforeTerminator limit (b @ limit @ js '';'')"
  unfolding appendedBeforeTerminator_def endsWith_def by simp

text \<open>
  What executeSQL does with a valid statement. Its test for a LIMIT is textual: the word
  \<open>LIMIT\<close>, whitespace and a digit somewhere in the text. Without them, and with one
  terminator at most, the database receives the statement without its terminator,
  followed by \<open> LIMIT \<close>, the configured maximum as the language prints the number (a
  text without \<open>$\<close>) and the terminator, and limitApplied is true. With them the
  database receives the statement untouched and limitApplied is false.
\<close>

lemma executeSQL_limit_textual:
  "(validateSQL toUpperCase sql = Inr True \<and> \<not> mentionsLimitNumber sql \<and> oneTerminatorAtMost sql
      \<and> 36 \<notin> set (configuredMaximum numberToString environment opts) \<longrightarrow>
      executeSQL toUpperCase numberToString executeWithTimeout environment opts startTime endTime sql
      = (case executeWithTimeout
                (withoutTerminator sql @ js '' LIMIT '' @ configuredMaximum numberToString environment opts @ js '';'')
                (configuredTimeout environment opts) of
           Inl e \<Rightarrow> Inl e
         | Inr rows \<Rightarrow> Inr \<lparr>results = rows, rowCount = length rows,
                            executionTimeMs = endTime - startTime, limitApplied = True\<rparr>)
      \<and> appendedBeforeTerminator (js '' LIMIT '' @ configuredMaximum numberToString environment opts)
          (withoutTerminator sql @ js '' LIMIT '' @ configuredMaximum numberToString environment opts @ js '';''))
   \<and> (validateSQL toUpperCase sql = Inr True \<and> mentionsLimitNumber sql \<longrightarrow>
      executeSQL toUpperCase numberToString executeWithTimeout environment opts startTime endTime sql
      = (case executeWithTimeout sql (configuredTimeout environment opts) of
           Inl e \<Rightarrow> Inl e
         | Inr rows \<Rightarrow> Inr \<lparr>results = rows, rowCount = length rows,
                            executionTimeMs = endTime - startTime, limitApplied = False\<rparr>))"
proof (intro conjI impI)
  assume a: "validateSQL toUpperCase sql = Inr True \<and> \<not> mentionsLimitNumber sql \<and> oneTerminatorAtMost sql
      \<and> 36 \<notin> set (configuredMaximum numberToString environment opts)"
  then show "executeSQL toUpperCase numberToString executeWithTimeout environment opts startTime endTime sql
      = (case executeWithTimeout
                (withoutTerminator sql @ js '' LIMIT '' @ configuredMaximum numberToString environment opts @ js '';'')
                (configuredTimeout environment opts) of
           Inl e \<Rightarrow> Inl e
         | Inr rows \<Rightarrow> Inr \<lparr>results = rows, rowCount = length rows,
                            executionTimeMs = endTime - startTime, limitApplied = True\<rparr>)"
    unfolding executeSQL_def limit_pattern_iff configuredMaximum_def configuredTimeout_def Let_def
    by (simp del: seqs.simps add: replace_tail limit_differs split: sum.splits)
next
  assume a: "validateSQL toUpperCase sql = Inr True \<and> \<not> mentionsLimitNumber sql \<and> oneTerminatorAtMost sql
      \<and> 36 \<notin> set (configuredMaximum numberToString environment opts)"
  then have "59 \<notin> set (withoutTerminator sql)" unfolding oneTerminatorAtMost_def by simp
  from appended_before [OF this, of "js '' LIMIT '' @ configuredMaximum numberToString environment opts"]
  show "appendedBeforeTerminator (js '' LIMIT '' @ configuredMaximum numberToString environment opts)
          (withoutTerminator sql @ js '' LIMIT '' @ configuredMaximum numberToString environment opts @ js '';'')"
    by simp
next
  assume a: "validateSQL toUpperCase sql = Inr True \<and> mentionsLimitNumber sql"
  then show "executeSQL toUpperCase numberToString executeWithTimeout environment opts startTime endTime sql
      = (case executeWithTimeout sql (configuredTimeout environment opts) of
           Inl e \<Rightarrow> Inl e
         | Inr rows \<Rightarrow> Inr \<lparr>results = rows, rowCount = length rows,
                            executionTimeMs = endTime - startTime, limitApplied = False\<rparr>)"
    unfolding executeSQL_def limit_pattern_iff configuredMaximum_def configuredTimeout_def Let_def
    by (simp del: seqs.simps split: sum.splits)
qed

text \<open>
  C3. The claim: a valid statement without a LIMIT clause gets a LIMIT equal to the
  configured maximum immediately before its terminator, and a statement with a LIMIT
  clause is left untouched, with limitApplied false. On the code, whose comment reads
  "Add LIMIT if not present (safety measure)", the test is made on the raw text.
  \<open>SELECT 'limit 5' AS note FROM Products\<close> has no LIMIT clause (its only \<open>limit 5\<close>
  stands inside a string literal) and is sent without a limit, with limitApplied false.
  \<open>SELECT * FROM Products LIMIT ALL\<close> has a LIMIT clause and is sent as
  \<open>SELECT * FROM Products LIMIT ALL LIMIT 1000;\<close>, with limitApplied true. And
  \<open>SELECT 1;;\<close>, which validateSQL accepts, is sent as \<open>SELECT 1; LIMIT 1000;\<close>, the
  LIMIT behind a terminator.
\<close>

theorem limit_clause_misjudged:
  "validateSQL toUpperCaseASCII (js ''SELECT '' @ [39] @ js ''limit 5'' @ [39] @ js '' AS note FROM Products'') = Inr True
   \<and> \<not> hasLimitClause (js ''SELECT '' @ [39] @ js ''limit 5'' @ [39] @ js '' AS note FROM Products'')
   \<and> executeSQL toUpperCaseASCII decimal (\<lambda>q t. Inr [q])
         \<lparr>QUERY_TIMEOUT_MS = 0, MAX_RESULT_ROWS = None :: nat option, SCHEMA_CACHE_MAX_SIZE = 0, SCHEMA_CACHE_TTL_MS = 0\<rparr>
         \<lparr>timeout = 0, maxRows = Some 1000, explain = False, requestId = []\<rparr> 0 5
         (js ''SELECT '' @ [39] @ js ''limit 5'' @ [39] @ js '' AS note FROM Products'')
       = Inr \<lparr>results = [js ''SELECT '' @ [39] @ js ''limit 5'' @ [39] @ js '' AS note FROM Products''],
              rowCount = 1, executionTimeMs = 5, limitApplied = False\<rparr>
   \<and> validateSQL toUpperCaseASCII (js ''SELECT * FROM Products LIMIT ALL'') = Inr True
   \<and> hasLimitClause (js ''SELECT * FROM Products LIMIT ALL'')
   \<and> executeSQL toUpperCaseASCII decimal (\<lambda>q t. Inr [q])
         \<lparr>QUERY_TIMEOUT_MS = 0, MAX_RESULT_ROWS = None :: nat option, SCHEMA_CACHE_MAX_SIZE = 0, SCHEMA_CACHE_TTL_MS = 0\<rparr>
         \<lparr>timeout = 0, maxRows = Some 1000, explain = False, requestId = []\<rparr> 0 5
         (js ''SELECT * FROM Products LIMIT ALL'')
       = Inr \<lparr>results = [js ''SELECT * FROM Products LIMIT ALL LIMIT 1000;''],
              rowCount = 1, executionTimeMs = 5, limitApplied = True\<rparr>
   \<and> validateSQL toUpperCaseASCII (js ''SELECT 1;;'') = Inr True
   \<and> \<not> hasLimitClause (js ''SELECT 1;;'')
   \<and> executeSQL toUpperCaseASCII decimal (\<lambda>q t. Inr [q])
         \<lparr>QUERY_TIMEOUT_MS = 0, MAX_RESULT_ROWS = None :: nat option, SCHEMA_CACHE_MAX_SIZE = 0, SCHEMA_CACHE_TTL_MS = 0\<rparr>
         \<lparr>timeout = 0, maxRows = Some 1000, explain = False, requestId = []\<rparr> 0 5
         (js ''SELECT 1;;'')
       = Inr \<lparr>results = [js ''SELECT 1; LIMIT 1000;''],
              rowCount = 1, executionTimeMs = 5, limitApplied = True\<rparr>
   \<and> \<not> appendedBeforeTerminator (js '' LIMIT 1000'') (js ''SELECT 1; LIMIT 1000;'')"
proof -
  let ?q1 = "js ''SELECT '' @ [39] @ js ''limit 5'' @ [39] @ js '' AS note FROM Products''"
  let ?q2 = "js ''SELECT * FROM Products LIMIT ALL''"
  let ?q3 = "js ''SELECT 1;;''"
  let ?env = "\<lparr>QUERY_TIMEOUT_MS = 0, MAX_RESULT_ROWS = None :: nat option, SCHEMA_CACHE_MAX_SIZE = 0, SCHEMA_CACHE_TTL_MS = 0\<rparr>"
  let ?opts = "\<lparr>timeout = 0, maxRows = Some (1000 :: nat), explain = False, requestId = []\<rparr>"
  have v1: "validateSQL toUpperCaseASCII ?q1 = Inr True" by code_simp
  have l1: "\<not> hasLimitClause ?q1" by code_simp
  have e1: "executeSQL toUpperCaseASCII decimal (\<lambda>q t. Inr [q]) ?env ?opts 0 5 ?q1
       = Inr \<lparr>results = [?q1], rowCount = 1, executionTimeMs = 5, limitApplied = False\<rparr>"
    by code_simp
  have v2: "validateSQL toUpperCaseASCII ?q2 = Inr True" by code_simp
  have l2: "hasLimitClause ?q2" by code_simp
  have e2: "executeSQL toUpperCaseASCII decimal (\<lambda>q t. Inr [q]) ?env ?opts 0 5 ?q2
       = Inr \<lparr>results = [js ''SELECT * FROM Products LIMIT ALL LIMIT 1000;''],
              rowCount = 1, executionTimeMs = 5, limitApplied = True\<rparr>"
    by code_simp
  have v3: "validateSQL toUpperCaseASCII ?q3 = Inr True" by code_simp
  have l3: "\<not> hasLimitClause ?q3" by code_simp
  have e3: "executeSQL toUpperCaseASCII decimal (\<lambda>q t. Inr [q]) ?env ?opts 0 5 ?q3
       = Inr \<lparr>results = [js ''SELECT 1; LIMIT 1000;''],
              rowCount = 1, executionTimeMs = 5, limitApplied = True\<rparr>"
    by code_simp
  have a3: "\<not> appendedBeforeTerminator (js '' LIMIT 1000'') (js ''SELECT 1; LIMIT 1000;'')" by code_simp
  show ?thesis
    by (intro conjI) (rule v1 l1 e1 v2 l2 e2 v3 l3 e3 a3)+
qed

section \<open>The deadline of a query\<close>

text \<open>
  With a connection pool a query that takes longer than the timeout ends in the error of
  the timer; with the SQLite connection the outcome of the query is the result, whatever
  its duration.
\<close>

lemma executeWithTimeout_pool:
  assumes "asyncAll sql = Async d outcome" and "0 < timeout'" and "timeout' < d"
  shows "executeWithTimeout' numberToString timerFirst asyncAll sql timeout'
         = Inl (OtherError (js ''Query timed out after '' @ numberToString timeout' @ js ''ms''))"
proof -
  from assms(2,3) have "timerDelay timeout' < d" unfolding timerDelay_def by simp
  then show ?thesis unfolding executeWithTimeout'_def Let_def assms(1) by simp
qed

lemma executeWithTimeout_blocking:
  "asyncAll sql = Blocking d outcome \<Longrightarrow>
   executeWithTimeout' numberToString timerFirst asyncAll sql timeout' = outcome"
  unfolding executeWithTimeout'_def Let_def by simp

text \<open>
  C7. The claim: a query whose execution exceeds the configured timeout ends in a timeout
  failure, and the caller receives no rows. On the code, the \<open>asyncAll\<close> of the SQLite
  connection has run the statement to its end before the timer is started, and the race
  is won by the rows: a query of 5000 ms under a timeout of 1000 ms returns its rows as a
  success. With a connection pool the same query ends in the error
  \<open>Query timed out after 1000ms\<close>.
\<close>

theorem blocking_query_outlasts_timeout:
  "executeSQL toUpperCaseASCII decimal
     (executeWithTimeout' decimal True (\<lambda>q. Blocking 5000 (Inr [q])))
     \<lparr>QUERY_TIMEOUT_MS = 0, MAX_RESULT_ROWS = None :: nat option, SCHEMA_CACHE_MAX_SIZE = 0, SCHEMA_CACHE_TTL_MS = 0\<rparr>
     \<lparr>timeout = 1000, maxRows = None, explain = False, requestId = []\<rparr> 0 5000
     (js ''SELECT * FROM Orders'')
   = Inr \<lparr>results = [js ''SELECT * FROM Orders LIMIT 1000;''], rowCount = 1, executionTimeMs = 5000,
          limitApplied = True\<rparr>
   \<and> executeSQL toUpperCaseASCII decimal
     (executeWithTimeout' decimal True (\<lambda>q. Async 5000 (Inr [q])))
     \<lparr>QUERY_TIMEOUT_MS = 0, MAX_RESULT_ROWS = None :: nat option, SCHEMA_CACHE_MAX_SIZE = 0, SCHEMA_CACHE_TTL_MS = 0\<rparr>
     \<lparr>timeout = 1000, maxRows = None, explain = False, requestId = []\<rparr> 0 1000
     (js ''SELECT * FROM Orders'')
   = Inl (OtherError (js ''Query timed out after 1000ms''))"
proof -
  let ?env = "\<lparr>QUERY_TIMEOUT_MS = 0, MAX_RESULT_ROWS = None :: nat option, SCHEMA_CACHE_MAX_SIZE = 0, SCHEMA_CACHE_TTL_MS = 0\<rparr>"
  let ?opts = "\<lparr>timeout = 1000, maxRows = None :: nat option, explain = False, requestId = []\<rparr>"
  let ?q = "js ''SELECT * FROM Orders''"
  have v: "validateSQL toUpperCaseASCII ?q = Inr True" by code_simp
  have t: "\<not> test True (seqs [WordB, Lit (js ''LIMIT''), Plus isWhiteSpace, Plus isDigit]) ?q"
    by code_simp
  have r: "replace False (seqs [Opt (Lit (js '';'')), Star isWhiteSpace, Eol])
             (js '' LIMIT '' @ js ''1000'' @ js '';'') ?q = js ''SELECT * FROM Orders LIMIT 1000;''"
    by code_simp
  have n: "js ''SELECT * FROM Orders LIMIT 1000;'' \<noteq> ?q" by code_simp
  have m: "js ''Query timed out after '' @ decimal 1000 @ js ''ms'' = js ''Query timed out after 1000ms''"
    by code_simp
  have 1: "executeSQL toUpperCaseASCII decimal
     (executeWithTimeout' decimal True (\<lambda>q. Blocking 5000 (Inr [q]))) ?env ?opts 0 5000 ?q
   = Inr \<lparr>results = [js ''SELECT * FROM Orders LIMIT 1000;''], rowCount = 1, executionTimeMs = 5000,
          limitApplied = True\<rparr>"
    unfolding executeSQL_def Let_def executeWithTimeout'_def
    by (simp del: seqs.simps add: v t r n)
  have 2: "executeSQL toUpperCaseASCII decimal
     (executeWithTimeout' decimal True (\<lambda>q. Async 5000 (Inr [q]))) ?env ?opts 0 1000 ?q
   = (Inl (OtherError (js ''Query timed out after 1000ms'')) :: error + jsstring execution)"
    unfolding executeSQL_def Let_def executeWithTimeout'_def timerDelay_def
    by (simp del: seqs.simps add: v t r n m)
  show ?thesis
    by (intro conjI) (rule 1 2)+
qed

section \<open>Identifiers in the query history\<close>

lemma addToHistory_hd: "entryId (hd (addToHistory now e h)) = length h + 1"
  by (simp add: addToHistory_def Let_def MAX_HISTORY_SIZE_def)

lemma addToHistory_full:
  assumes "length h = MAX_HISTORY_SIZE"
  shows "addToHistory now e h
         = \<lparr>entryId = 1001, stamped = e\<lparr>e_timestamp := (if e_timestamp e \<noteq> [] then e_timestamp e else now)\<rparr>\<rparr>
           # butlast h"
  using assms by (cases h) (simp_all add: addToHistory_def Let_def MAX_HISTORY_SIZE_def)

lemma addAll_snoc: "addAll (calls @ [(now, e)]) h = addToHistory now e (addAll calls h)"
  by (simp add: addAll_def)

lemma addAll_full:
  assumes "length h = MAX_HISTORY_SIZE" and "calls \<noteq> []"
  shows "length (addAll calls h) = MAX_HISTORY_SIZE
       \<and> (\<forall>k < min (length calls) MAX_HISTORY_SIZE. entryId (addAll calls h ! k) = 1001)
       \<and> hd (addAll calls h)
          = \<lparr>entryId = 1001,
             stamped = (snd (last calls))\<lparr>e_timestamp :=
                (if e_timestamp (snd (last calls)) \<noteq> [] then e_timestamp (snd (last calls))
                 else fst (last calls))\<rparr>\<rparr>"
  using assms(2)
proof (induction calls rule: rev_induct)
  case Nil
  then show ?case by simp
next
  case (snoc c calls)
  obtain now e where c: "c = (now, e)" by (cases c)
  let ?h = "addAll calls h"
  have len: "length ?h = MAX_HISTORY_SIZE"
  proof (cases "calls = []")
    case True
    with assms(1) show ?thesis by (simp add: addAll_def)
  next
    case False
    with snoc.IH show ?thesis by simp
  qed
  have ids: "\<forall>k < min (length calls) MAX_HISTORY_SIZE. entryId (?h ! k) = 1001"
  proof (cases "calls = []")
    case True
    then show ?thesis by simp
  next
    case False
    with snoc.IH show ?thesis by simp
  qed
  let ?new = "\<lparr>entryId = 1001, stamped = e\<lparr>e_timestamp := (if e_timestamp e \<noteq> [] then e_timestamp e else now)\<rparr>\<rparr>"
  have step: "addAll (calls @ [c]) h = ?new # butlast ?h"
    unfolding c addAll_snoc by (rule addToHistory_full [OF len])
  have 1: "length (addAll (calls @ [c]) h) = MAX_HISTORY_SIZE"
    unfolding step using len by (simp add: MAX_HISTORY_SIZE_def)
  have 2: "\<forall>k < min (length (calls @ [c])) MAX_HISTORY_SIZE. entryId (addAll (calls @ [c]) h ! k) = 1001"
  proof (intro allI impI)
    fix k assume k: "k < min (length (calls @ [c])) MAX_HISTORY_SIZE"
    show "entryId (addAll (calls @ [c]) h ! k) = 1001"
    proof (cases k)
      case 0
      then show ?thesis unfolding step by simp
    next
      case (Suc k')
      with k have k': "k' < min (length calls) MAX_HISTORY_SIZE" and "k' < length ?h - 1"
        using len by (simp_all, linarith)
      then have "butlast ?h ! k' = ?h ! k'" by (simp add: nth_butlast)
      with ids k' Suc show ?thesis unfolding step by simp
    qed
  qed
  have 3: "hd (addAll (calls @ [c]) h) = ?new" unfolding step by simp
  from 1 2 3 show ?case unfolding c by simp
qed

text \<open>
  C10. addToHistory gives each new entry the size of the store before the insertion plus
  one as its id. Once the store holds its maximum of 1000 entries, every entry added after
  that receives the id 1001: after any number of further calls the store still holds 1000
  entries, the entries added since (the newest ones, as far as the store reaches) all bear
  the id 1001, so ids are no longer unique, and getHistoryById 1001 returns the entry
  added last.
\<close>

theorem history_ids_repeat:
  "entryId (hd (addToHistory now e h)) = length h + 1
   \<and> (length h = MAX_HISTORY_SIZE \<and> calls \<noteq> [] \<longrightarrow>
        length (addAll calls h) = MAX_HISTORY_SIZE
        \<and> (\<forall>k < min (length calls) MAX_HISTORY_SIZE. entryId (addAll calls h ! k) = 1001)
        \<and> getHistoryById 1001 (addAll calls h)
           = Some \<lparr>entryId = 1001,
                   stamped = (snd (last calls))\<lparr>e_timestamp :=
                      (if e_timestamp (snd (last calls)) \<noteq> [] then e_timestamp (snd (last calls))
                       else fst (last calls))\<rparr>\<rparr>)"
proof (intro conjI impI)
  show "entryId (hd (addToHistory now e h)) = length h + 1" by (rule addToHistory_hd)
next
  assume a: "length h = MAX_HISTORY_SIZE \<and> calls \<noteq> []"
  then have f: "length h = MAX_HISTORY_SIZE" and c: "calls \<noteq> []" by simp_all
  note r = addAll_full [OF f c]
  from r show "length (addAll calls h) = MAX_HISTORY_SIZE" by simp
  from r show "\<forall>k < min (length calls) MAX_HISTORY_SIZE. entryId (addAll calls h ! k) = 1001" by simp
  from r have "addAll calls h \<noteq> []" by (auto simp: MAX_HISTORY_SIZE_def)
  then obtain x xs where x: "addAll calls h = x # xs" by (cases "addAll calls h") auto
  with r have "entryId x = 1001" by auto
  with x have "getHistoryById 1001 (addAll calls h) = Some x" by (simp add: getHistoryById_def)
  with r x show "getHistoryById 1001 (addAll calls h)
           = Some \<lparr>entryId = 1001,
                   stamped = (snd (last calls))\<lparr>e_timestamp :=
                      (if e_timestamp (snd (last calls)) \<noteq> [] then e_timestamp (snd (last calls))
                       else fst (last calls))\<rparr>\<rparr>" by simp
qed


theorem history_ids_repeat_witness:
  "length fullHistory = MAX_HISTORY_SIZE
   \<and> [(js ''t1'', sampleEntry (js ''first'')), (js ''t2'', sampleEntry (js ''second''))] \<noteq> []
   \<and> length (addAll [(js ''t1'', sampleEntry (js ''first'')), (js ''t2'', sampleEntry (js ''second''))]
         fullHistory) = MAX_HISTORY_SIZE
   \<and> entryId (addAll [(js ''t1'', sampleEntry (js ''first'')), (js ''t2'', sampleEntry (js ''second''))]
         fullHistory ! 0) = 1001
   \<and> entryId (addAll [(js ''t1'', sampleEntry (js ''first'')), (js ''t2'', sampleEntry (js ''second''))]
         fullHistory ! 1) = 1001
   \<and> getHistoryById 1001
         (addAll [(js ''t1'', sampleEntry (js ''first'')), (js ''t2'', sampleEntry (js ''second''))]
            fullHistory)
       = Some \<lparr>entryId = 1001, stamped = sampleEntry (js ''second'')\<rparr>"
proof -
  let ?calls = "[(js ''t1'', sampleEntry (js ''first'')), (js ''t2'', sampleEntry (js ''second''))]"
  have h1: "length fullHistory = MAX_HISTORY_SIZE"
    by (simp add: fullHistory_def MAX_HISTORY_SIZE_def)
  have h2: "?calls \<noteq> []" by simp
  note r = history_ids_repeat [of _ _ fullHistory ?calls, THEN conjunct2, rule_format, OF conjI [OF h1 h2]]
  from r have len: "length (addAll ?calls fullHistory) = MAX_HISTORY_SIZE" by (rule conjunct1)
  from r have ids: "\<forall>k < min (length ?calls) MAX_HISTORY_SIZE. entryId (addAll ?calls fullHistory ! k) = 1001"
    by (rule conjunct1 [OF conjunct2])
  have "0 < min (length ?calls) MAX_HISTORY_SIZE" and "1 < min (length ?calls) MAX_HISTORY_SIZE"
    by (simp_all add: MAX_HISTORY_SIZE_def)
  with ids have i0: "entryId (addAll ?calls fullHistory ! 0) = 1001"
    and i1: "entryId (addAll ?calls fullHistory ! 1) = 1001" by blast+
  have st: "(snd (last ?calls))\<lparr>e_timestamp :=
                (if e_timestamp (snd (last ?calls)) \<noteq> [] then e_timestamp (snd (last ?calls))
                 else fst (last ?calls))\<rparr> = sampleEntry (js ''second'')"
    by (simp add: sampleEntry_def js_def)
  from r have "getHistoryById 1001 (addAll ?calls fullHistory)
       = Some \<lparr>entryId = 1001, stamped = (snd (last ?calls))\<lparr>e_timestamp :=
                (if e_timestamp (snd (last ?calls)) \<noteq> [] then e_timestamp (snd (last ?calls))
                 else fst (last ?calls))\<rparr>\<rparr>"
    by (rule conjunct2 [OF conjunct2])
  then have g: "getHistoryById 1001 (addAll ?calls fullHistory)
       = Some \<lparr>entryId = 1001, stamped = sampleEntry (js ''second'')\<rparr>"
    unfolding st .
  show ?thesis
    by (intro conjI) (rule h1 h2 len i0 i1 g)+
qed

section \<open>The history and the result of a request\<close>

lemma queryFromQuestion_total_recorder:
  "fst (queryFromQuestion toUpperCase numberToString rawSQL schemaUsed executeWithTimeout explainWithAI
          environment opts clk (\<lambda>e h. Inr (f e h)) history question)
   = fst (queryFromQuestion toUpperCase numberToString rawSQL schemaUsed executeWithTimeout explainWithAI
          environment opts clk (\<lambda>e h. Inr h) () question)"
  by (simp add: queryFromQuestion_def Let_def split: sum.splits)

lemma queryFromQuestion_throwing_recorder:
  "fst (queryFromQuestion toUpperCase numberToString rawSQL schemaUsed executeWithTimeout explainWithAI
          environment opts clk (\<lambda>e h. Inl historyError) history question) = Inl historyError"
  by (simp add: queryFromQuestion_def Let_def split: sum.splits)

text \<open>
  The PostgreSQL variant of the history, which is not the module the SQL service imports,
  catches a failed insert itself and writes it to the console.
\<close>

lemma addToHistoryPg_failed_insert:
  "historyTableCreated db \<Longrightarrow>
   addToHistoryPg (\<lambda>row. Inl err) e db
   = db\<lparr>console := console db @ [[9888, 65039] @ js '' Could not save to history: '' @ message err]\<rparr>"
  by (simp add: addToHistoryPg_def Let_def)

text \<open>
  C8, as stated: when addToHistory throws, the caller of queryFromQuestion still receives
  the primary response, or the primary error. queryFromQuestion calls addToHistory inside
  its \<open>try\<close> block and again inside its \<open>catch\<close> block, with no handler of its own
  around either call. For the question answered by \<open>SELECT 1;\<close> the caller receives the
  response when the recorder works and the recorder's error when it throws; for a request
  whose generation fails, the caller receives the error of the generation when the
  recorder works and the recorder's error when it throws.
\<close>

theorem throwing_recorder_replaces_result:
  "fst (queryFromQuestion toUpperCaseASCII decimal (Inr (js ''SELECT 1'')) ([] :: (jsstring \<times> unit) list)
          (\<lambda>q t. Inr [q]) (Inr [])
          \<lparr>QUERY_TIMEOUT_MS = 0, MAX_RESULT_ROWS = None :: nat option, SCHEMA_CACHE_MAX_SIZE = 0, SCHEMA_CACHE_TTL_MS = 0\<rparr>
          \<lparr>timeout = 0, maxRows = None, explain = False, requestId = js ''r1''\<rparr>
          \<lparr>requestIdNow = 0, startNow = 0, generationStart = 0, generationEnd = 2, executionStart = 2,
           executionEnd = 5, totalNow = 6, successTimestamp = js ''t1'', failureNow = 7,
           failureTimestamp = js ''t2''\<rparr>
          (\<lambda>e h. Inr (addToHistory (js ''t0'') e h)) [] (js ''one''))
   = Inr \<lparr>r_question = js ''one'', r_sql = js ''SELECT 1;'', r_results = [js ''SELECT 1 LIMIT 1000;''],
          r_rowCount = 1, r_explanation = None, r_timing_generation = 2, r_timing_execution = 3,
          r_timing_total = 6, r_requestId = js ''r1'', r_limitApplied = True, r_schemaTablesUsed = []\<rparr>
   \<and> fst (queryFromQuestion toUpperCaseASCII decimal (Inr (js ''SELECT 1'')) ([] :: (jsstring \<times> unit) list)
          (\<lambda>q t. Inr [q]) (Inr [])
          \<lparr>QUERY_TIMEOUT_MS = 0, MAX_RESULT_ROWS = None :: nat option, SCHEMA_CACHE_MAX_SIZE = 0, SCHEMA_CACHE_TTL_MS = 0\<rparr>
          \<lparr>timeout = 0, maxRows = None, explain = False, requestId = js ''r1''\<rparr>
          \<lparr>requestIdNow = 0, startNow = 0, generationStart = 0, generationEnd = 2, executionStart = 2,
           executionEnd = 5, totalNow = 6, successTimestamp = js ''t1'', failureNow = 7,
           failureTimestamp = js ''t2''\<rparr>
          (\<lambda>e h. Inl (OtherError (js ''history store failed''))) ([] :: stored list) (js ''one''))
   = Inl (OtherError (js ''history store failed''))
   \<and> fst (queryFromQuestion toUpperCaseASCII decimal (Inl (OtherError (js ''model unavailable'')))
          ([] :: (jsstring \<times> unit) list) (\<lambda>q t. Inr [q]) (Inr [])
          \<lparr>QUERY_TIMEOUT_MS = 0, MAX_RESULT_ROWS = None :: nat option, SCHEMA_CACHE_MAX_SIZE = 0, SCHEMA_CACHE_TTL_MS = 0\<rparr>
          \<lparr>timeout = 0, maxRows = None, explain = False, requestId = js ''r1''\<rparr>
          \<lparr>requestIdNow = 0, startNow = 0, generationStart = 0, generationEnd = 2, executionStart = 2,
           executionEnd = 5, totalNow = 6, successTimestamp = js ''t1'', failureNow = 7,
           failureTimestamp = js ''t2''\<rparr>
          (\<lambda>e h. Inr (addToHistory (js ''t0'') e h)) [] (js ''one''))
   = (Inl (OtherError (js ''model unavailable'')) :: error + jsstring response)
   \<and> fst (queryFromQuestion toUpperCaseASCII decimal (Inl (OtherError (js ''model unavailable'')))
          ([] :: (jsstring \<times> unit) list) (\<lambda>q t. Inr [q]) (Inr [])
          \<lparr>QUERY_TIMEOUT_MS = 0, MAX_RESULT_ROWS = None :: nat option, SCHEMA_CACHE_MAX_SIZE = 0, SCHEMA_CACHE_TTL_MS = 0\<rparr>
          \<lparr>timeout = 0, maxRows = None, explain = False, requestId = js ''r1''\<rparr>
          \<lparr>requestIdNow = 0, startNow = 0, generationStart = 0, generationEnd = 2, executionStart = 2,
           executionEnd = 5, totalNow = 6, successTimestamp = js ''t1'', failureNow = 7,
           failureTimestamp = js ''t2''\<rparr>
          (\<lambda>e h. Inl (OtherError (js ''history store failed''))) ([] :: stored list) (js ''one''))
   = (Inl (OtherError (js ''history store failed'')) :: error + jsstring response)"
proof -
  let ?env = "\<lparr>QUERY_TIMEOUT_MS = 0, MAX_RESULT_ROWS = None :: nat option, SCHEMA_CACHE_MAX_SIZE = 0, SCHEMA_CACHE_TTL_MS = 0\<rparr>"
  let ?opts = "\<lparr>timeout = 0, maxRows = None :: nat option, explain = False, requestId = js ''r1''\<rparr>"
  let ?clk = "\<lparr>requestIdNow = 0, startNow = 0, generationStart = 0, generationEnd = 2, executionStart = 2,
           executionEnd = 5, totalNow = 6, successTimestamp = js ''t1'', failureNow = 7,
           failureTimestamp = js ''t2''\<rparr>"
  have 1: "fst (queryFromQuestion toUpperCaseASCII decimal (Inr (js ''SELECT 1'')) ([] :: (jsstring \<times> unit) list)
          (\<lambda>q t. Inr [q]) (Inr []) ?env ?opts ?clk
          (\<lambda>e h. Inr (addToHistory (js ''t0'') e h)) [] (js ''one''))
   = Inr \<lparr>r_question = js ''one'', r_sql = js ''SELECT 1;'', r_results = [js ''SELECT 1 LIMIT 1000;''],
          r_rowCount = 1, r_explanation = None, r_timing_generation = 2, r_timing_execution = 3,
          r_timing_total = 6, r_requestId = js ''r1'', r_limitApplied = True, r_schemaTablesUsed = []\<rparr>"
    by code_simp
  have 2: "fst (queryFromQuestion toUpperCaseASCII decimal (Inr (js ''SELECT 1'')) ([] :: (jsstring \<times> unit) list)
          (\<lambda>q t. Inr [q]) (Inr []) ?env ?opts ?clk
          (\<lambda>e h. Inl (OtherError (js ''history store failed''))) ([] :: stored list) (js ''one''))
   = Inl (OtherError (js ''history store failed''))"
    by (rule queryFromQuestion_throwing_recorder)
  have 3: "fst (queryFromQuestion toUpperCaseASCII decimal (Inl (OtherError (js ''model unavailable'')))
          ([] :: (jsstring \<times> unit) list) (\<lambda>q t. Inr [q]) (Inr []) ?env ?opts ?clk
          (\<lambda>e h. Inr (addToHistory (js ''t0'') e h)) [] (js ''one''))
   = (Inl (OtherError (js ''model unavailable'')) :: error + jsstring response)"
    by code_simp
  have 4: "fst (queryFromQuestion toUpperCaseASCII decimal (Inl (OtherError (js ''model unavailable'')))
          ([] :: (jsstring \<times> unit) list) (\<lambda>q t. Inr [q]) (Inr []) ?env ?opts ?clk
          (\<lambda>e h. Inl (OtherError (js ''history store failed''))) ([] :: stored list) (js ''one''))
   = (Inl (OtherError (js ''history store failed'')) :: error + jsstring response)"
    by (rule queryFromQuestion_throwing_recorder)
  show ?thesis
    by (intro conjI) (rule 1 2 3 4)+
qed

text \<open>
  C8, amended. For every request handled by queryFromQuestion, recording the request in
  the history of utils/queryHistory.js, whose addToHistory never throws, does not change
  the result returned to the caller: the primary response, or the primary error, is the
  same as without the recording. A recorder that throws is not tolerated: the caller
  receives the error of the recorder in place of the primary response or the primary
  error.
\<close>

theorem history_recording_and_result:
  "fst (queryFromQuestion toUpperCase numberToString rawSQL schemaUsed executeWithTimeout explainWithAI
          environment opts clk (\<lambda>e h. Inr (addToHistory now e h)) history question)
   = fst (queryFromQuestion toUpperCase numberToString rawSQL schemaUsed executeWithTimeout explainWithAI
          environment opts clk (\<lambda>e h. Inr h) () question)
   \<and> fst (queryFromQuestion toUpperCase numberToString rawSQL schemaUsed executeWithTimeout explainWithAI
          environment opts clk (\<lambda>e h. Inl historyError) history question) = Inl historyError"
  by (simp add: queryFromQuestion_def Let_def split: sum.splits)

section \<open>Reading the schema cache\<close>

text \<open>
  C4, as stated: a get within the time to live refreshes the recency of an entry but never
  extends its life, so that an entry set at time \<open>t\<close> is absent for every get after
  \<open>t\<close> plus the time to live. With the default of 300000 ms, an entry set at 1000 and
  read at 200000 is still returned at 400000: the cache is built with
  \<open>updateAgeOnGet: true\<close>, and the read at 200000 has set its age back to zero.
\<close>

theorem cache_read_extends_life:
  "(400000 :: int) > 1000 + ttl (cacheOptions \<lparr>QUERY_TIMEOUT_MS = 0, MAX_RESULT_ROWS = None :: nat option, SCHEMA_CACHE_MAX_SIZE = 0, SCHEMA_CACHE_TTL_MS = 0\<rparr>)
   \<and> fst (getSchemaFromCache \<lparr>QUERY_TIMEOUT_MS = 0, MAX_RESULT_ROWS = None :: nat option, SCHEMA_CACHE_MAX_SIZE = 0, SCHEMA_CACHE_TTL_MS = 0\<rparr>
            400000 (js ''sqlite:default'')
            (snd (getSchemaFromCache \<lparr>QUERY_TIMEOUT_MS = 0, MAX_RESULT_ROWS = None :: nat option, SCHEMA_CACHE_MAX_SIZE = 0, SCHEMA_CACHE_TTL_MS = 0\<rparr>
                    200000 (js ''sqlite:default'')
                    (setSchemaInCache \<lparr>QUERY_TIMEOUT_MS = 0, MAX_RESULT_ROWS = None :: nat option, SCHEMA_CACHE_MAX_SIZE = 0, SCHEMA_CACHE_TTL_MS = 0\<rparr>
                       1000 (js ''sqlite:default'') (js ''schema'') None []))))
       = Some (js ''schema'')"
  by (simp add: getSchemaFromCache_def setSchemaInCache_def lru_get_def lru_set_def isStale_def
      cacheOptions_def Let_def)

lemma find_key: "find (\<lambda>e. c_key e = k) cache = Some e \<Longrightarrow> c_key e = k"
  by (auto simp: find_Some_iff)

text \<open>
  C4, amended: a get within the time to live refreshes the recency of the entry and also
  restarts its age. An entry is absent for a get made more than its time to live after
  the start of its age; a get up to then returns the value, moves the entry to the front
  and makes the time of the get the new start of its age; a set starts the age at the
  time of the set, with the configured time to live.
\<close>

theorem cache_get_restarts_age:
  assumes "find (\<lambda>e. c_key e = k) cache = Some e" and "c_ttl e \<noteq> 0"
  shows "(now - c_start e > c_ttl e \<longrightarrow> fst (getSchemaFromCache environment now k cache) = None)
       \<and> (now - c_start e \<le> c_ttl e \<longrightarrow>
            fst (getSchemaFromCache environment now k cache) = Some (c_value e)
            \<and> hd (snd (getSchemaFromCache environment now k cache)) = e\<lparr>c_start := now\<rparr>
            \<and> find (\<lambda>e. c_key e = k) (snd (getSchemaFromCache environment now k cache))
                = Some (e\<lparr>c_start := now\<rparr>))
       \<and> find (\<lambda>e. c_key e = k) (setSchemaInCache environment now k v None cache)
           = Some \<lparr>c_key = k, c_value = v, c_start = now, c_ttl = ttl (cacheOptions environment)\<rparr>"
  using assms find_key [OF assms(1)]
  by (auto simp: getSchemaFromCache_def setSchemaInCache_def lru_get_def lru_set_def isStale_def
      cacheOptions_def Let_def)


theorem cache_get_restarts_age_witness:
  "find (\<lambda>e. c_key e = js ''pg:shop'')
     [\<lparr>c_key = js ''pg:shop'', c_value = js ''schema'', c_start = 1000, c_ttl = 300000\<rparr>]
   = Some \<lparr>c_key = js ''pg:shop'', c_value = js ''schema'', c_start = 1000, c_ttl = 300000\<rparr>
   \<and> c_ttl \<lparr>c_key = js ''pg:shop'', c_value = js ''schema'', c_start = 1000, c_ttl = 300000\<rparr> \<noteq> 0
   \<and> fst (getSchemaFromCache \<lparr>QUERY_TIMEOUT_MS = 0, MAX_RESULT_ROWS = None :: nat option, SCHEMA_CACHE_MAX_SIZE = 0, SCHEMA_CACHE_TTL_MS = 0\<rparr> 200000 (js ''pg:shop'')
            [\<lparr>c_key = js ''pg:shop'', c_value = js ''schema'', c_start = 1000, c_ttl = 300000\<rparr>])
       = Some (js ''schema'')
   \<and> hd (snd (getSchemaFromCache \<lparr>QUERY_TIMEOUT_MS = 0, MAX_RESULT_ROWS = None :: nat option, SCHEMA_CACHE_MAX_SIZE = 0, SCHEMA_CACHE_TTL_MS = 0\<rparr> 200000 (js ''pg:shop'')
            [\<lparr>c_key = js ''pg:shop'', c_value = js ''schema'', c_start = 1000, c_ttl = 300000\<rparr>]))
       = \<lparr>c_key = js ''pg:shop'', c_value = js ''schema'', c_start = 200000, c_ttl = 300000\<rparr>
   \<and> fst (getSchemaFromCache \<lparr>QUERY_TIMEOUT_MS = 0, MAX_RESULT_ROWS = None :: nat option, SCHEMA_CACHE_MAX_SIZE = 0, SCHEMA_CACHE_TTL_MS = 0\<rparr> 400000 (js ''pg:shop'')
            [\<lparr>c_key = js ''pg:shop'', c_value = js ''schema'', c_start = 1000, c_ttl = 300000\<rparr>])
       = None"
proof -
  let ?e0 = "\<lparr>QUERY_TIMEOUT_MS = 0, MAX_RESULT_ROWS = None :: nat option, SCHEMA_CACHE_MAX_SIZE = 0, SCHEMA_CACHE_TTL_MS = 0\<rparr>"
  let ?E = "\<lparr>c_key = js ''pg:shop'', c_value = js ''schema'', c_start = 1000, c_ttl = 300000\<rparr>"
  have h1: "find (\<lambda>e. c_key e = js ''pg:shop'') [?E] = Some ?E" by simp
  have h2: "c_ttl ?E \<noteq> 0" by simp
  note r = cache_get_restarts_age [OF h1 h2]
  have a: "(200000 :: int) - c_start ?E \<le> c_ttl ?E" by simp
  have b: "(400000 :: int) - c_start ?E > c_ttl ?E" by simp
  from r [of 200000 ?e0, THEN conjunct2, THEN conjunct1, rule_format, OF a]
  have g1: "fst (getSchemaFromCache ?e0 200000 (js ''pg:shop'') [?E]) = Some (js ''schema'')"
    and g2: "hd (snd (getSchemaFromCache ?e0 200000 (js ''pg:shop'') [?E]))
             = \<lparr>c_key = js ''pg:shop'', c_value = js ''schema'', c_start = 200000, c_ttl = 300000\<rparr>"
    by simp_all
  from r [of 400000 ?e0, THEN conjunct1, rule_format, OF b]
  have g3: "fst (getSchemaFromCache ?e0 400000 (js ''pg:shop'') [?E]) = None" .
  show ?thesis
    by (intro conjI) (rule h1 h2 g1 g2 g3)+
qed

end
